theory Spec2Isabelle
  imports Main "HOL-Library.Word" "HOL-Library.Sublist"
begin

unbundle bit_operations_syntax

section \<open>Unbounded channel and lock-free queue of internal/async\<close>

text \<open>
  The generator \<^verbatim>\<open>gen.go\<close> stamps out two primitives per element type: a lock-free
  FIFO queue (templates \<^verbatim>\<open>queueUnsafeStructImpl\<close> and \<^verbatim>\<open>queueImpl\<close>) and an unbounded
  channel (template \<^verbatim>\<open>chanImpl\<close>). Both are embedded here for an arbitrary element type.
  Panics of the Go runtime and of the code are values of type \<open>panic\<close>.
\<close>

datatype panic =
  NilDereference | IndexOutOfRange | SendOnClosedChannel | CloseOfClosedChannel | InWasClosed

section \<open>The queue: data and operations\<close>

text \<open>
  An \<^verbatim>\<open>unsafe.Pointer\<close> is an address or nil (\<open>None\<close>). The element type admits nil
  (the templates write \<^verbatim>\<open>v: nil\<close>), so a value is an \<open>'a option\<close> with \<open>None\<close> for nil.
  Field \<^verbatim>\<open>next\<close> is called \<open>nxt\<close> and field \<^verbatim>\<open>v\<close> is called \<open>val\<close>.
\<close>

type_synonym ptr = "nat option"

record 'a item =
  nxt :: ptr
  val :: "'a option"

record queue =
  head :: ptr
  tail :: ptr
  len :: "64 word"

text \<open>
  Memory shared by all queues of one element type: the heap of items, the next unused address,
  and the contents of the package-level \<^verbatim>\<open>sync.Pool\<close>.
\<close>

record 'a mem =
  heap :: "nat \<Rightarrow> 'a item"
  fresh :: nat
  pool :: "nat list"

text \<open>
  \<open>new_item\<close> is an allocation \<^verbatim>\<open>&item{next: nil, v: nil}\<close>. \<open>pool_get k\<close> is
  \<^verbatim>\<open>Pool.Get()\<close>: the library does not say which pooled item is returned, or whether one is,
  so the choice \<open>k\<close> is an argument: an index into the pool reuses that item, any other
  number runs the pool's \<^verbatim>\<open>New\<close> function. \<open>pool_put\<close> is \<^verbatim>\<open>Pool.Put\<close>.
\<close>

definition new_item :: "'a mem \<Rightarrow> nat \<times> 'a mem" where
  "new_item m =
     (fresh m, m\<lparr>heap := (heap m)(fresh m := \<lparr>nxt = None, val = None\<rparr>), fresh := Suc (fresh m)\<rparr>)"

definition pool_get :: "nat \<Rightarrow> 'a mem \<Rightarrow> nat \<times> 'a mem" where
  "pool_get k m =
     (if k < length (pool m)
      then (pool m ! k, m\<lparr>pool := take k (pool m) @ drop (Suc k) (pool m)\<rparr>)
      else new_item m)"

definition pool_put :: "nat \<Rightarrow> 'a mem \<Rightarrow> 'a mem" where
  "pool_put a m = m\<lparr>pool := a # pool m\<rparr>"

definition NewQueue :: "'a mem \<Rightarrow> 'a mem \<times> queue" where
  "NewQueue m = (case new_item m of (a, m1) \<Rightarrow> (m1, \<lparr>head = Some a, tail = Some a, len = 0\<rparr>))"

definition mem0 :: "'a mem" where
  "mem0 = \<lparr>heap = (\<lambda>_. \<lparr>nxt = None, val = None\<rparr>), fresh = 0, pool = []\<rparr>"

text \<open>
  \<^verbatim>\<open>casItem(p, old, new)\<close>, one function per location \<open>p\<close> the code passes:
  the \<^verbatim>\<open>next\<close> field of an item, \<^verbatim>\<open>q.tail\<close> and \<^verbatim>\<open>q.head\<close>. \<^verbatim>\<open>loadItem\<close> is a read of
  the field.
\<close>

definition cas_next :: "nat \<Rightarrow> ptr \<Rightarrow> ptr \<Rightarrow> 'a mem \<Rightarrow> bool \<times> 'a mem" where
  "cas_next a old new m =
     (if nxt (heap m a) = old
      then (True, m\<lparr>heap := (heap m)(a := (heap m a)\<lparr>nxt := new\<rparr>)\<rparr>)
      else (False, m))"

definition cas_tail :: "ptr \<Rightarrow> ptr \<Rightarrow> queue \<Rightarrow> bool \<times> queue" where
  "cas_tail old new q = (if tail q = old then (True, q\<lparr>tail := new\<rparr>) else (False, q))"

definition cas_head :: "ptr \<Rightarrow> ptr \<Rightarrow> queue \<Rightarrow> bool \<times> queue" where
  "cas_head old new q = (if head q = old then (True, q\<lparr>head := new\<rparr>) else (False, q))"

text \<open>
  The retry loop of \<^verbatim>\<open>In\<close> for the prepared item \<open>i\<close>, and \<^verbatim>\<open>In\<close> itself. A loop that
  never returns has the value \<open>None\<close>; a nil dereference is \<open>Some (Inl NilDereference)\<close>.
\<close>

partial_function (option) In_loop ::
  "nat \<Rightarrow> 'a mem \<times> queue \<Rightarrow> (panic + 'a mem \<times> queue) option" where
  "In_loop i s =
     (case s of (m, q) \<Rightarrow>
      (case tail q of
         None \<Rightarrow> Some (Inl NilDereference)
       | Some last' \<Rightarrow>
           (let lastnext = nxt (heap m last') in
            if tail q = Some last' then
              if lastnext = None then
                (case cas_next last' lastnext (Some i) m of (ok, m1) \<Rightarrow>
                 if ok then
                   (case cas_tail (Some last') (Some i) q of (_, q1) \<Rightarrow>
                      Some (Inr (m1, q1\<lparr>len := len q1 + 1\<rparr>)))
                 else In_loop i (m1, q))
              else
                (case cas_tail (Some last') lastnext q of (_, q1) \<Rightarrow> In_loop i (m, q1))
            else In_loop i (m, q))))"

declare In_loop.simps [code]

definition In :: "'a option \<Rightarrow> nat \<Rightarrow> 'a mem \<times> queue \<Rightarrow> (panic + 'a mem \<times> queue) option" where
  "In x k s =
     (case s of (m, q) \<Rightarrow>
      (case pool_get k m of (i, m1) \<Rightarrow>
         In_loop i (m1\<lparr>heap := (heap m1)(i := \<lparr>nxt = None, val = x\<rparr>)\<rparr>, q)))"

text \<open>
  \<^verbatim>\<open>Out\<close> returns the value, nil for an empty queue. \<^verbatim>\<open>^uint64(0)\<close> is \<open>NOT 0\<close>.
\<close>

partial_function (option) Out ::
  "'a mem \<times> queue \<Rightarrow> (panic + 'a option \<times> 'a mem \<times> queue) option" where
  "Out s =
     (case s of (m, q) \<Rightarrow>
      (case head q of
         None \<Rightarrow> Some (Inl NilDereference)
       | Some first \<Rightarrow>
           (let last' = tail q; firstnext = nxt (heap m first) in
            if Some first = head q then
              if Some first = last' then
                if firstnext = None then Some (Inr (None, m, q))
                else (case cas_tail last' firstnext q of (_, q1) \<Rightarrow> Out (m, q1))
              else
                (case firstnext of
                   None \<Rightarrow> Some (Inl NilDereference)
                 | Some fn \<Rightarrow>
                     (let x = val (heap m fn) in
                      case cas_head (Some first) firstnext q of (ok, q1) \<Rightarrow>
                        if ok then Some (Inr (x, pool_put first m, q1\<lparr>len := len q1 + NOT 0\<rparr>))
                        else Out (m, q1)))
            else Out (m, q))))"

declare Out.simps [code]

definition Len :: "queue \<Rightarrow> 64 word" where
  "Len q = len q"

text \<open>
  Single-threaded use: a list of operations run one after the other; \<open>Enq x k\<close> is
  \<^verbatim>\<open>In(x)\<close> with pool choice \<open>k\<close>, \<open>Deq\<close> is \<^verbatim>\<open>Out()\<close>. \<open>dequeue_n\<close> collects the values
  returned by \<open>n\<close> calls of \<^verbatim>\<open>Out\<close>.
\<close>

datatype 'a op = Enq "'a option" nat | Deq

fun exec :: "'a op list \<Rightarrow> 'a mem \<times> queue \<Rightarrow> (panic + 'a mem \<times> queue) option" where
  "exec [] s = Some (Inr s)"
| "exec (Enq x k # ops) s =
     (case In x k s of
        None \<Rightarrow> None
      | Some (Inl e) \<Rightarrow> Some (Inl e)
      | Some (Inr s') \<Rightarrow> exec ops s')"
| "exec (Deq # ops) s =
     (case Out s of
        None \<Rightarrow> None
      | Some (Inl e) \<Rightarrow> Some (Inl e)
      | Some (Inr (x, s')) \<Rightarrow> exec ops s')"

fun dequeue_n :: "nat \<Rightarrow> 'a mem \<times> queue \<Rightarrow> (panic + 'a option list \<times> 'a mem \<times> queue) option" where
  "dequeue_n 0 s = Some (Inr ([], s))"
| "dequeue_n (Suc n) s =
     (case Out s of
        None \<Rightarrow> None
      | Some (Inl e) \<Rightarrow> Some (Inl e)
      | Some (Inr (x, s')) \<Rightarrow>
          (case dequeue_n n s' of
             None \<Rightarrow> None
           | Some (Inl e) \<Rightarrow> Some (Inl e)
           | Some (Inr (xs, s'')) \<Rightarrow> Some (Inr (x # xs, s''))))"

text \<open>
  The specification's view of the same operations: the queue as the list of its elements,
  oldest first.
\<close>

fun fifo :: "'a op list \<Rightarrow> 'a option list \<Rightarrow> 'a option list" where
  "fifo [] xs = xs"
| "fifo (Enq x k # ops) xs = fifo ops (xs @ [x])"
| "fifo (Deq # ops) xs = fifo ops (tl xs)"


text \<open>
  The representation invariant: \<open>ns\<close> is the linked list from the sentinel to the last
  node, \<open>xs\<close> the values of the nodes after the sentinel; list and pool are disjoint and
  allocated.
\<close>

fun chain :: "(nat \<Rightarrow> 'a item) \<Rightarrow> ptr \<Rightarrow> nat list \<Rightarrow> bool" where
  "chain h p [] = (p = None)"
| "chain h p (a # as) = (p = Some a \<and> chain h (nxt (h a)) as)"

definition qinv :: "'a mem \<Rightarrow> queue \<Rightarrow> nat list \<Rightarrow> 'a option list \<Rightarrow> bool" where
  "qinv m q ns xs =
     (ns \<noteq> [] \<and> head q = Some (hd ns) \<and> tail q = Some (last ns) \<and>
      chain (heap m) (Some (hd ns)) ns \<and>
      distinct (ns @ pool m) \<and> (\<forall>a \<in> set (ns @ pool m). a < fresh m) \<and>
      xs = map (\<lambda>a. val (heap m a)) (tl ns) \<and> len q = of_nat (length xs))"

definition pool_ok :: "'a mem \<Rightarrow> bool" where
  "pool_ok m = (distinct (pool m) \<and> (\<forall>a \<in> set (pool m). a < fresh m))"

text \<open>
  Calls that overlap. A goroutine inside \<^verbatim>\<open>In\<close> or \<^verbatim>\<open>Out\<close> is a \<open>thread\<close>: the statement it
  executes next, with the local variables read so far. \<open>tstep\<close> executes that one statement,
  which makes at most one access to shared memory (a load, a compare-and-swap, an atomic add,
  a pool operation, or a store to the item just taken from the pool):
  \<open>In_get\<close> is line 247, \<open>In_set_next\<close> 248, \<open>In_set_v\<close> 249, \<open>In_load_tail\<close> 253,
  \<open>In_load_next\<close> 254, \<open>In_recheck\<close> 255-256, \<open>In_cas_next\<close> 257, \<open>In_cas_tail\<close> 258,
  \<open>In_add_len\<close> 259, \<open>In_help\<close> 263; \<open>Out_load_head\<close> is line 274, \<open>Out_load_tail\<close> 275,
  \<open>Out_load_next\<close> 276, \<open>Out_recheck\<close> 277-279, \<open>Out_help\<close> 282, \<open>Out_read_v\<close> 284,
  \<open>Out_cas_head\<close> 285, \<open>Out_add_len\<close> 286, \<open>Out_put\<close> 287; \<open>In_done\<close> and \<open>Out_done\<close> are
  returned calls. \<open>interleave\<close> runs a schedule, a list of thread numbers, one statement of
  the named thread at a time; \<open>observe\<close> keeps the threads, the queue fields and the pool.
\<close>

datatype 'a thread =
    In_get "'a option" nat
  | In_set_next nat "'a option"
  | In_set_v nat "'a option"
  | In_load_tail nat
  | In_load_next nat ptr
  | In_recheck nat nat ptr
  | In_cas_next nat nat ptr
  | In_cas_tail nat nat
  | In_add_len
  | In_help nat nat ptr
  | In_done
  | Out_load_head
  | Out_load_tail ptr
  | Out_load_next ptr ptr
  | Out_recheck nat ptr ptr
  | Out_help ptr ptr
  | Out_read_v nat ptr
  | Out_cas_head nat ptr "'a option"
  | Out_add_len nat "'a option"
  | Out_put nat "'a option"
  | Out_done "'a option"

fun tstep :: "'a thread \<Rightarrow> 'a mem \<times> queue \<Rightarrow> panic + 'a thread \<times> 'a mem \<times> queue" where
  "tstep (In_get x k) (m, q) =
     (case pool_get k m of (i, m1) \<Rightarrow> Inr (In_set_next i x, m1, q))"
| "tstep (In_set_next i x) (m, q) =
     Inr (In_set_v i x, m\<lparr>heap := (heap m)(i := (heap m i)\<lparr>nxt := None\<rparr>)\<rparr>, q)"
| "tstep (In_set_v i x) (m, q) =
     Inr (In_load_tail i, m\<lparr>heap := (heap m)(i := (heap m i)\<lparr>val := x\<rparr>)\<rparr>, q)"
| "tstep (In_load_tail i) (m, q) = Inr (In_load_next i (tail q), m, q)"
| "tstep (In_load_next i p) (m, q) =
     (case p of
        None \<Rightarrow> Inl NilDereference
      | Some last' \<Rightarrow> Inr (In_recheck i last' (nxt (heap m last')), m, q))"
| "tstep (In_recheck i last' lastnext) (m, q) =
     Inr (if tail q = Some last'
          then (if lastnext = None then In_cas_next i last' lastnext else In_help i last' lastnext)
          else In_load_tail i, m, q)"
| "tstep (In_cas_next i last' lastnext) (m, q) =
     (case cas_next last' lastnext (Some i) m of
        (ok, m1) \<Rightarrow> Inr (if ok then In_cas_tail i last' else In_load_tail i, m1, q))"
| "tstep (In_cas_tail i last') (m, q) =
     (case cas_tail (Some last') (Some i) q of (_, q1) \<Rightarrow> Inr (In_add_len, m, q1))"
| "tstep In_add_len (m, q) = Inr (In_done, m, q\<lparr>len := len q + 1\<rparr>)"
| "tstep (In_help i last' lastnext) (m, q) =
     (case cas_tail (Some last') lastnext q of (_, q1) \<Rightarrow> Inr (In_load_tail i, m, q1))"
| "tstep In_done (m, q) = Inr (In_done, m, q)"
| "tstep Out_load_head (m, q) = Inr (Out_load_tail (head q), m, q)"
| "tstep (Out_load_tail p) (m, q) = Inr (Out_load_next p (tail q), m, q)"
| "tstep (Out_load_next p last') (m, q) =
     (case p of
        None \<Rightarrow> Inl NilDereference
      | Some first \<Rightarrow> Inr (Out_recheck first last' (nxt (heap m first)), m, q))"
| "tstep (Out_recheck first last' firstnext) (m, q) =
     Inr (if Some first = head q
          then (if Some first = last'
                then (if firstnext = None then Out_done None else Out_help last' firstnext)
                else Out_read_v first firstnext)
          else Out_load_head, m, q)"
| "tstep (Out_help last' firstnext) (m, q) =
     (case cas_tail last' firstnext q of (_, q1) \<Rightarrow> Inr (Out_load_head, m, q1))"
| "tstep (Out_read_v first firstnext) (m, q) =
     (case firstnext of
        None \<Rightarrow> Inl NilDereference
      | Some fn \<Rightarrow> Inr (Out_cas_head first firstnext (val (heap m fn)), m, q))"
| "tstep (Out_cas_head first firstnext x) (m, q) =
     (case cas_head (Some first) firstnext q of
        (ok, q1) \<Rightarrow> Inr (if ok then Out_add_len first x else Out_load_head, m, q1))"
| "tstep (Out_add_len first x) (m, q) = Inr (Out_put first x, m, q\<lparr>len := len q + NOT 0\<rparr>)"
| "tstep (Out_put first x) (m, q) = Inr (Out_done x, pool_put first m, q)"
| "tstep (Out_done x) (m, q) = Inr (Out_done x, m, q)"

fun interleave ::
  "nat list \<Rightarrow> 'a thread list \<times> 'a mem \<times> queue \<Rightarrow> panic + 'a thread list \<times> 'a mem \<times> queue" where
  "interleave [] c = Inr c"
| "interleave (t # ts) (thr, s) =
     (if t < length thr then
        (case tstep (thr ! t) s of
           Inl e \<Rightarrow> Inl e
         | Inr (th, s') \<Rightarrow> interleave ts (thr[t := th], s'))
      else interleave ts (thr, s))"

fun observe ::
  "panic + 'a thread list \<times> 'a mem \<times> queue \<Rightarrow> panic + 'a thread list \<times> queue \<times> nat list" where
  "observe (Inl e) = Inl e"
| "observe (Inr (thr, m, q)) = Inr (thr, q, pool m)"

section \<open>The channel: data and operations\<close>

text \<open>
  A Go channel is its buffer and its closed flag: \<open>inq\<close> and \<open>outq\<close> are the buffers of
  \<^verbatim>\<open>ch.in\<close> and \<^verbatim>\<open>ch.out\<close> (capacity 16 each); \<^verbatim>\<open>ch.close\<close> is unbuffered. \<open>qbuf\<close> and
  \<open>qcap\<close> are the contents and the capacity of the slice \<^verbatim>\<open>ch.q\<close>. \<open>pc\<close> is the position of
  the goroutine running \<^verbatim>\<open>processing\<close>: before the preallocation (\<open>Start\<close>), at the first
  select (\<open>Outer\<close>), at the loop \<^verbatim>\<open>for len(ch.q) > 0\<close> (\<open>Inner\<close>), and in \<^verbatim>\<open>closed\<close> at
  \<^verbatim>\<open>close(ch.in)\<close> (\<open>CloseIn\<close>), the range loop (\<open>Flush\<close>), the second loop (\<open>Drain\<close>),
  \<^verbatim>\<open>close(ch.out)\<close> (\<open>CloseOut\<close>), \<^verbatim>\<open>close(ch.close)\<close> (\<open>CloseSig\<close>), and returned (\<open>Done\<close>).
\<close>

datatype 's result = Crash panic | Blocks | Next 's

datatype pc = Start | Outer | Inner | CloseIn | Flush | Drain | CloseOut | CloseSig | Done

record 'a chan =
  inq :: "'a list"
  in_closed :: bool
  outq :: "'a list"
  out_closed :: bool
  close_closed :: bool
  qbuf :: "'a list"
  qcap :: nat
  pc :: pc

definition chan_cap :: nat where
  "chan_cap = 16"

definition NewUnboundedChan :: "'a chan" where
  "NewUnboundedChan =
     \<lparr>inq = [], in_closed = False, outq = [], out_closed = False, close_closed = False,
      qbuf = [], qcap = 0, pc = Start\<rparr>"

text \<open>
  \<^verbatim>\<open>append(ch.q, e)\<close>. The capacity of a slice that has to grow is chosen by the Go runtime,
  which is not part of the repository: \<open>grow\<close> is that policy, and the result always has
  room for the new element. \<open>double\<close> is the policy used for concrete runs.
\<close>

definition append_q :: "(nat \<Rightarrow> nat) \<Rightarrow> 'a \<Rightarrow> 'a chan \<Rightarrow> 'a chan" where
  "append_q grow e c =
     c\<lparr>qbuf := qbuf c @ [e],
       qcap := (if length (qbuf c) < qcap c then qcap c
                else max (grow (qcap c)) (Suc (length (qbuf c))))\<rparr>"

definition double :: "nat \<Rightarrow> nat" where
  "double n = 2 * n"

text \<open>
  What callers do with the endpoints: a send on \<^verbatim>\<open>In()\<close>, a receive on \<^verbatim>\<open>Out()\<close>,
  \<^verbatim>\<open>close(In())\<close> (the misuse the code panics on), and \<^verbatim>\<open>Close()\<close>, a send on the
  unbuffered \<^verbatim>\<open>ch.close\<close> that completes when the dispatcher is at a select.
  An operation that cannot proceed yet \<open>Blocks\<close>.
\<close>

definition send_in :: "'a \<Rightarrow> 'a chan \<Rightarrow> 'a chan result" where
  "send_in x c =
     (if in_closed c then Crash SendOnClosedChannel
      else if length (inq c) < chan_cap then Next (c\<lparr>inq := inq c @ [x]\<rparr>)
      else Blocks)"

definition recv_out :: "'a chan \<Rightarrow> ('a option \<times> 'a chan) result" where
  "recv_out c =
     (case outq c of
        x # xs \<Rightarrow> Next (Some x, c\<lparr>outq := xs\<rparr>)
      | [] \<Rightarrow> if out_closed c then Next (None, c) else Blocks)"

definition close_in :: "'a chan \<Rightarrow> 'a chan result" where
  "close_in c =
     (if in_closed c then Crash CloseOfClosedChannel else Next (c\<lparr>in_closed := True\<rparr>))"

definition Close :: "'a chan \<Rightarrow> 'a chan result" where
  "Close c =
     (if close_closed c then Crash SendOnClosedChannel
      else if pc c = Outer \<or> (pc c = Inner \<and> qbuf c \<noteq> []) then Next (c\<lparr>pc := CloseIn\<rparr>)
      else Blocks)"

text \<open>
  One step of the dispatcher. A select picks any ready case, so the case is an argument:
  \<open>TakeIn\<close> receives from \<^verbatim>\<open>ch.in\<close>, \<open>PutOut\<close> sends \<^verbatim>\<open>ch.q[0]\<close> to \<^verbatim>\<open>ch.out\<close>, \<open>Internal\<close> is a
  step without a choice. The case \<^verbatim>\<open><-ch.close\<close> is taken together with the caller's \<open>Close\<close>.
\<close>

datatype choice = Internal | TakeIn | PutOut

definition take_in :: "(nat \<Rightarrow> nat) \<Rightarrow> 'a chan \<Rightarrow> 'a chan result" where
  "take_in grow c =
     (case inq c of
        e # es \<Rightarrow> Next ((append_q grow e (c\<lparr>inq := es\<rparr>))\<lparr>pc := Inner\<rparr>)
      | [] \<Rightarrow> if in_closed c then Crash InWasClosed else Blocks)"

definition put_out :: "'a chan \<Rightarrow> 'a chan result" where
  "put_out c =
     (case qbuf c of
        [] \<Rightarrow> Crash IndexOutOfRange
      | e # es \<Rightarrow>
          if out_closed c then Crash SendOnClosedChannel
          else if length (outq c) < chan_cap
          then Next (c\<lparr>outq := outq c @ [e], qbuf := es, qcap := qcap c - 1\<rparr>)
          else Blocks)"

definition processing :: "(nat \<Rightarrow> nat) \<Rightarrow> choice \<Rightarrow> 'a chan \<Rightarrow> 'a chan result" where
  "processing grow ch c =
     (case pc c of
        Start \<Rightarrow>
          (if ch = Internal then Next (c\<lparr>qbuf := [], qcap := 2 ^ 10, pc := Outer\<rparr>) else Blocks)
      | Outer \<Rightarrow> (if ch = TakeIn then take_in grow c else Blocks)
      | Inner \<Rightarrow>
          (if qbuf c \<noteq> [] then
             (case ch of
                PutOut \<Rightarrow> put_out c
              | TakeIn \<Rightarrow> take_in grow c
              | Internal \<Rightarrow> Blocks)
           else if ch = Internal
           then Next (if qcap c < 2 ^ 5 then c\<lparr>qbuf := [], qcap := 2 ^ 10, pc := Outer\<rparr>
                      else c\<lparr>pc := Outer\<rparr>)
           else Blocks)
      | _ \<Rightarrow> Blocks)"

definition closed :: "(nat \<Rightarrow> nat) \<Rightarrow> 'a chan \<Rightarrow> 'a chan result" where
  "closed grow c =
     (case pc c of
        CloseIn \<Rightarrow>
          (if in_closed c then Crash CloseOfClosedChannel
           else Next (c\<lparr>in_closed := True, pc := Flush\<rparr>))
      | Flush \<Rightarrow>
          (case inq c of
             e # es \<Rightarrow> Next (append_q grow e (c\<lparr>inq := es\<rparr>))
           | [] \<Rightarrow> if in_closed c then Next (c\<lparr>pc := Drain\<rparr>) else Blocks)
      | Drain \<Rightarrow>
          (if qbuf c \<noteq> [] then
             (case put_out c of
                Blocks \<Rightarrow> Next c
              | r \<Rightarrow> r)
           else Next (c\<lparr>pc := CloseOut\<rparr>))
      | CloseOut \<Rightarrow>
          (if out_closed c then Crash CloseOfClosedChannel
           else Next (c\<lparr>out_closed := True, pc := CloseSig\<rparr>))
      | CloseSig \<Rightarrow>
          (if close_closed c then Crash CloseOfClosedChannel
           else Next (c\<lparr>close_closed := True, pc := Done\<rparr>))
      | _ \<Rightarrow> Blocks)"

definition dispatcher :: "(nat \<Rightarrow> nat) \<Rightarrow> choice \<Rightarrow> 'a chan \<Rightarrow> 'a chan result" where
  "dispatcher grow ch c =
     (if pc c \<in> {Start, Outer, Inner} then processing grow ch c
      else if ch = Internal then closed grow c
      else Blocks)"

text \<open>
  The channel together with what its users have observed: the values whose send returned,
  the values received, and whether a receive reported the end of the stream. An event is one
  atomic step of a caller or of the dispatcher; \<open>run\<close> executes a schedule.
\<close>

record 'a sys =
  channel :: "'a chan"
  accepted :: "'a list"
  received :: "'a list"
  eos :: bool

definition init :: "'a sys" where
  "init = \<lparr>channel = NewUnboundedChan, accepted = [], received = [], eos = False\<rparr>"

datatype 'a event = Send 'a | Recv | CloseCall | CloseInput | Disp choice

fun lift :: "'c result \<Rightarrow> ('c \<Rightarrow> 's) \<Rightarrow> 's result" where
  "lift (Crash p) f = Crash p"
| "lift Blocks f = Blocks"
| "lift (Next c) f = Next (f c)"

fun step :: "(nat \<Rightarrow> nat) \<Rightarrow> 'a event \<Rightarrow> 'a sys \<Rightarrow> 'a sys result" where
  "step grow (Send x) s =
     lift (send_in x (channel s)) (\<lambda>c. s\<lparr>channel := c, accepted := accepted s @ [x]\<rparr>)"
| "step grow Recv s =
     lift (recv_out (channel s))
       (\<lambda>(r, c). case r of
                   Some x \<Rightarrow> s\<lparr>channel := c, received := received s @ [x]\<rparr>
                 | None \<Rightarrow> s\<lparr>channel := c, eos := True\<rparr>)"
| "step grow CloseCall s = lift (Close (channel s)) (\<lambda>c. s\<lparr>channel := c\<rparr>)"
| "step grow CloseInput s = lift (close_in (channel s)) (\<lambda>c. s\<lparr>channel := c\<rparr>)"
| "step grow (Disp ch) s = lift (dispatcher grow ch (channel s)) (\<lambda>c. s\<lparr>channel := c\<rparr>)"

fun run :: "(nat \<Rightarrow> nat) \<Rightarrow> 'a event list \<Rightarrow> 'a sys \<Rightarrow> 'a sys result" where
  "run grow [] s = Next s"
| "run grow (e # es) s =
     (case step grow e s of
        Next s' \<Rightarrow> run grow es s'
      | Crash p \<Rightarrow> Crash p
      | Blocks \<Rightarrow> Blocks)"

fun sends_of :: "'a event list \<Rightarrow> 'a list" where
  "sends_of [] = []"
| "sends_of (Send x # es) = x # sends_of es"
| "sends_of (e # es) = sends_of es"

text \<open>
  Classes of events and states: \<open>producing\<close> events are sends and dispatcher steps,
  \<open>quiet\<close> events are receives and dispatcher steps; a state is \<open>closing\<close> once the
  dispatcher has taken the close request, \<open>misused\<close> when \<^verbatim>\<open>In()\<close> was closed by a caller,
  \<open>settled\<close> when nothing is left to deliver.
\<close>

definition producing :: "'a event \<Rightarrow> bool" where
  "producing e = (case e of Send x \<Rightarrow> True | Disp ch \<Rightarrow> True | _ \<Rightarrow> False)"

definition quiet :: "'a event \<Rightarrow> bool" where
  "quiet e = (case e of Recv \<Rightarrow> True | Disp ch \<Rightarrow> True | _ \<Rightarrow> False)"

definition closing :: "'a sys \<Rightarrow> bool" where
  "closing s = (pc (channel s) \<notin> {Start, Outer, Inner})"

definition misused :: "'a sys \<Rightarrow> bool" where
  "misused s = (in_closed (channel s) \<and> pc (channel s) \<in> {Start, Outer, Inner, CloseIn})"

definition settled :: "'a sys \<Rightarrow> bool" where
  "settled s = (if closing s then eos s
                else pc (channel s) = Outer \<and> inq (channel s) = [] \<and> outq (channel s) = [])"

text \<open>
  The invariant of the reachable states, and the measure that decreases when the dispatcher
  or the receiver makes progress.
\<close>

definition cinv :: "'a sys \<Rightarrow> bool" where
  "cinv s =
     (let c = channel s in
      received s @ outq c @ qbuf c @ inq c = accepted s \<and>
      length (inq c) \<le> chan_cap \<and> length (outq c) \<le> chan_cap \<and>
      length (qbuf c) \<le> qcap c \<and>
      (pc c = Start \<longrightarrow> qbuf c = []) \<and>
      (pc c = Outer \<longrightarrow> qbuf c = [] \<and> 2 ^ 5 \<le> qcap c) \<and>
      (pc c \<in> {Flush, Drain, CloseOut, CloseSig, Done} \<longrightarrow> in_closed c) \<and>
      (pc c \<in> {Drain, CloseOut, CloseSig, Done} \<longrightarrow> inq c = []) \<and>
      (pc c \<in> {CloseOut, CloseSig, Done} \<longrightarrow> qbuf c = []) \<and>
      (out_closed c \<longleftrightarrow> pc c \<in> {CloseSig, Done}) \<and>
      (close_closed c \<longleftrightarrow> pc c = Done) \<and>
      (eos s \<longrightarrow> out_closed c \<and> outq c = []))"

definition weight :: "pc \<Rightarrow> nat" where
  "weight p =
     (case p of Start \<Rightarrow> 2 | Outer \<Rightarrow> 0 | Inner \<Rightarrow> 1 | CloseIn \<Rightarrow> 9 | Flush \<Rightarrow> 8
      | Drain \<Rightarrow> 7 | CloseOut \<Rightarrow> 6 | CloseSig \<Rightarrow> 5 | Done \<Rightarrow> 0)"

definition mu :: "'a sys \<Rightarrow> nat" where
  "mu s =
     (let c = channel s in
      40 * length (inq c) + 30 * length (qbuf c) + 20 * length (outq c) + weight (pc c) +
      (if eos s then 0 else 1))"

section \<open>The queue: proofs\<close>

lemma chain_upd_other: "a \<notin> set ns \<Longrightarrow> chain (h(a := x)) p ns = chain h p ns"
  by (induction ns arbitrary: p) auto

lemma chain_last_nxt: "chain h p ns \<Longrightarrow> ns \<noteq> [] \<Longrightarrow> nxt (h (last ns)) = None"
  by (induction ns arbitrary: p) (auto split: if_splits)

lemma chain_snoc:
  "chain h p ns \<Longrightarrow> ns \<noteq> [] \<Longrightarrow> distinct ns \<Longrightarrow> i \<notin> set ns \<Longrightarrow> nxt (h i) = None \<Longrightarrow>
   chain (h(last ns := (h (last ns))\<lparr>nxt := Some i\<rparr>)) p (ns @ [i])"
proof (induction ns arbitrary: p)
  case Nil
  then show ?case by simp
next
  case (Cons a as)
  show ?case
  proof (cases "as = []")
    case True
    with Cons.prems show ?thesis by auto
  next
    case False
    have leq: "last (a # as) = last as" using False by simp
    define h' where "h' = h(last as := (h (last as))\<lparr>nxt := Some i\<rparr>)"
    from False Cons.prems have "chain h' (nxt (h a)) (as @ [i])"
      unfolding h'_def by (intro Cons.IH) auto
    moreover from False Cons.prems have "last as \<noteq> a" by auto
    then have "h' a = h a" by (simp add: h'_def)
    moreover have "p = Some a" using Cons.prems by simp
    ultimately have "chain h' p ((a # as) @ [i])" by simp
    then show ?thesis unfolding leq h'_def .
  qed
qed

lemma chain_hd: "chain h p ns \<Longrightarrow> ns \<noteq> [] \<Longrightarrow> p = Some (hd ns)"
  by (cases ns) auto

lemma qinv_New: "pool_ok m \<Longrightarrow> (case NewQueue m of (m1, q) \<Rightarrow> qinv m1 q [fresh m] [])"
  by (auto simp: pool_ok_def NewQueue_def new_item_def qinv_def less_Suc_eq)

lemma qinvD:
  assumes "qinv m q ns xs"
  shows "ns \<noteq> []" "head q = Some (hd ns)" "tail q = Some (last ns)"
    "chain (heap m) (Some (hd ns)) ns" "distinct (ns @ pool m)"
    "\<forall>a \<in> set (ns @ pool m). a < fresh m"
    "xs = map (\<lambda>a. val (heap m a)) (tl ns)" "len q = of_nat (length xs)"
  using assms unfolding qinv_def by simp_all

lemma qinvI:
  assumes "ns \<noteq> []" "head q = Some (hd ns)" "tail q = Some (last ns)"
    "chain (heap m) (Some (hd ns)) ns" "distinct (ns @ pool m)"
    "\<forall>a \<in> set (ns @ pool m). a < fresh m"
    "xs = map (\<lambda>a. val (heap m a)) (tl ns)" "len q = of_nat (length xs)"
  shows "qinv m q ns xs"
  unfolding qinv_def using assms by simp

lemma pool_get_props:
  assumes "qinv m q ns xs" "pool_get k m = (i, m1)"
  shows "i \<notin> set ns \<and> qinv m1 q ns xs \<and> i \<notin> set (pool m1) \<and> i < fresh m1"
proof (cases "k < length (pool m)")
  case True
  note D = qinvD[OF assms(1)]
  from True have eq: "i = pool m ! k" "m1 = m\<lparr>pool := take k (pool m) @ drop (Suc k) (pool m)\<rparr>"
    using assms(2) by (auto simp: pool_get_def)
  have pm: "pool m = take k (pool m) @ i # drop (Suc k) (pool m)"
    using True eq(1) by (simp add: id_take_nth_drop)
  define ps where "ps = take k (pool m)"
  define qs where "qs = drop (Suc k) (pool m)"
  have pm': "pool m = ps @ i # qs" and p1: "pool m1 = ps @ qs"
    using pm by (simp_all add: ps_def qs_def eq(2))
  from D(5) have d: "distinct (ns @ ps @ i # qs)" unfolding pm' .
  from D(6) have b: "\<forall>a \<in> set (ns @ ps @ i # qs). a < fresh m" unfolding pm' .
  have h1: "heap m1 = heap m" "fresh m1 = fresh m" by (simp_all add: eq(2))
  from d have "i \<notin> set ns" by auto
  moreover from d have "i \<notin> set (pool m1)" unfolding p1 by auto
  moreover from b have "i < fresh m1" unfolding h1 by auto
  moreover have "qinv m1 q ns xs"
  proof (rule qinvI)
    show "distinct (ns @ pool m1)" using d unfolding p1 by auto
    show "\<forall>a \<in> set (ns @ pool m1). a < fresh m1" using b unfolding p1 h1 by auto
  qed (simp_all add: h1 D)
  ultimately show ?thesis by simp
next
  case False
  note D = qinvD[OF assms(1)]
  from False have eq: "i = fresh m"
    "m1 = m\<lparr>heap := (heap m)(fresh m := \<lparr>nxt = None, val = None\<rparr>), fresh := Suc (fresh m)\<rparr>"
    using assms(2) by (auto simp: pool_get_def new_item_def)
  have h1: "heap m1 = (heap m)(fresh m := \<lparr>nxt = None, val = None\<rparr>)" "fresh m1 = Suc (fresh m)"
    "pool m1 = pool m" by (simp_all add: eq(2))
  from D(6) have nin: "fresh m \<notin> set ns" "fresh m \<notin> set (pool m)" by auto
  then have 1: "i \<notin> set ns" "i \<notin> set (pool m1)" "i < fresh m1" by (auto simp: eq)
  from nin have "fresh m \<notin> set (tl ns)" by (cases ns) auto
  then have vals: "map (\<lambda>a. val (heap m a)) (tl ns) = map (\<lambda>a. val (heap m1 a)) (tl ns)"
    unfolding h1 by (intro map_cong) auto
  have "qinv m1 q ns xs"
  proof (rule qinvI)
    show "chain (heap m1) (Some (hd ns)) ns" unfolding h1 using D(4) nin(1) by (simp add: chain_upd_other del: fun_upd_apply)
    show "distinct (ns @ pool m1)" unfolding h1 by (rule D(5))
    show "\<forall>a \<in> set (ns @ pool m1). a < fresh m1" using D(6) unfolding h1 by (auto simp: less_Suc_eq)
    show "xs = map (\<lambda>a. val (heap m1 a)) (tl ns)" using D(7) vals by simp
  qed (simp_all add: D)
  with 1 show ?thesis by simp
qed

lemma qinv_heap_upd_fresh:
  assumes "qinv m q ns xs" "i \<notin> set ns"
  shows "qinv (m\<lparr>heap := (heap m)(i := y)\<rparr>) q ns xs"
proof -
  from assms(2) have "i \<notin> set (tl ns)" by (cases ns) auto
  then have "map (\<lambda>a. val (heap m a)) (tl ns) = map (\<lambda>a. val (((heap m)(i := y)) a)) (tl ns)"
    by (intro map_cong) auto
  with assms show ?thesis
    by (simp add: qinv_def chain_upd_other del: fun_upd_apply)
qed

lemma In_loop_step:
  assumes inv: "qinv m q ns xs" and i: "i \<notin> set ns" "i \<notin> set (pool m)" "i < fresh m"
    and ni: "heap m i = \<lparr>nxt = None, val = x\<rparr>"
  shows "\<exists>m' q'. In_loop i (m, q) = Some (Inr (m', q')) \<and> qinv m' q' (ns @ [i]) (xs @ [x]) \<and>
           len q' = len q + 1 \<and> head q' = head q \<and> pool m' = pool m"
proof -
  define l where "l = last ns"
  define m' where "m' = m\<lparr>heap := (heap m)(l := (heap m l)\<lparr>nxt := Some i\<rparr>)\<rparr>"
  define q' where "q' = q\<lparr>tail := Some i, len := len q + 1\<rparr>"
  from inv have ne: "ns \<noteq> []" and tl: "tail q = Some l" and hd: "head q = Some (hd ns)"
    and ch: "chain (heap m) (Some (hd ns)) ns" and dist: "distinct (ns @ pool m)"
    and bnd: "\<forall>a \<in> set (ns @ pool m). a < fresh m"
    and xs: "xs = map (\<lambda>a. val (heap m a)) (tl ns)" and ln: "len q = of_nat (length xs)"
    by (auto simp: qinv_def l_def)
  from ch ne have nl: "nxt (heap m l) = None" unfolding l_def by (rule chain_last_nxt)
  have run: "In_loop i (m, q) = Some (Inr (m', q'))"
    by (subst In_loop.simps) (simp add: tl nl cas_next_def cas_tail_def m'_def q'_def)
  have li: "l \<noteq> i" using i(1) ne by (auto simp: l_def)
  have ch': "chain (heap m') (Some (hd ns)) (ns @ [i])"
    unfolding m'_def l_def using ch ne dist i(1) ni
    by (simp add: chain_snoc del: fun_upd_apply)
  have vals: "map (\<lambda>a. val (heap m' a)) (tl ns) = xs"
    unfolding xs by (intro map_cong) (auto simp: m'_def)
  have vi: "val (heap m' i) = x" using li ni by (simp add: m'_def)
  have "qinv m' q' (ns @ [i]) (xs @ [x])"
    unfolding qinv_def
    using ne hd ch' dist bnd i vals vi ln
    by (auto simp: q'_def m'_def simp del: fun_upd_apply)
  then show ?thesis using run by (simp add: q'_def m'_def)
qed

lemma In_step:
  assumes "qinv m q ns xs"
  shows "\<exists>m' q' i. In x k (m, q) = Some (Inr (m', q')) \<and> qinv m' q' (ns @ [i]) (xs @ [x]) \<and>
           len q' = len q + 1 \<and> head q' = head q"
proof -
  obtain i m1 where pg: "pool_get k m = (i, m1)" by (cases "pool_get k m")
  from pool_get_props[OF assms pg]
  have i: "i \<notin> set ns" "qinv m1 q ns xs" "i \<notin> set (pool m1)" "i < fresh m1" by auto
  define m2 where "m2 = m1\<lparr>heap := (heap m1)(i := \<lparr>nxt = None, val = x\<rparr>)\<rparr>"
  have "qinv m2 q ns xs" unfolding m2_def using i(2,1) by (rule qinv_heap_upd_fresh)
  moreover have "heap m2 i = \<lparr>nxt = None, val = x\<rparr>" "pool m2 = pool m1" "fresh m2 = fresh m1"
    by (simp_all add: m2_def)
  ultimately obtain m' q' where "In_loop i (m2, q) = Some (Inr (m', q'))"
      "qinv m' q' (ns @ [i]) (xs @ [x])" "len q' = len q + 1" "head q' = head q"
    using In_loop_step[of m2 q ns xs i x] i by auto
  moreover have "In x k (m, q) = In_loop i (m2, q)" by (simp add: In_def pg m2_def)
  ultimately show ?thesis by auto
qed

lemma Out_empty:
  assumes "qinv m q ns []"
  shows "Out (m, q) = Some (Inr (None, m, q))"
proof -
  from assms obtain a where ns: "ns = [a]" by (cases ns) (auto simp: qinv_def)
  with assms have "head q = Some a" "tail q = Some a" "nxt (heap m a) = None"
    by (auto simp: qinv_def)
  then show ?thesis by (subst Out.simps) simp
qed

lemma Out_nonempty:
  assumes "qinv m q ns (x # xs)"
  shows "\<exists>m' q'. Out (m, q) = Some (Inr (x, m', q')) \<and> qinv m' q' (tl ns) xs \<and>
           len q' = len q - 1 \<and> head q' \<noteq> head q \<and> pool m' = hd ns # pool m"
proof -
  note D = qinvD[OF assms]
  from D(7) have tne: "tl ns \<noteq> []" by auto
  with D(1) obtain a b rest where ns: "ns = a # b # rest"
    by (cases ns; cases "tl ns") simp_all
  define m' where "m' = pool_put a m"
  define q' where "q' = q\<lparr>head := Some b, len := len q + NOT 0\<rparr>"
  from D(2,3) have hd: "head q = Some a" and tl: "tail q = Some (last (b # rest))"
    unfolding ns by simp_all
  from D(4) have nx: "nxt (heap m a) = Some b" and ch: "chain (heap m) (Some b) (b # rest)"
    unfolding ns by simp_all
  from D(5,6) have dist: "distinct (a # b # rest @ pool m)"
    and bnd: "\<forall>c \<in> set (a # b # rest @ pool m). c < fresh m"
    unfolding ns by simp_all
  from D(7) have x: "x = val (heap m b)" and xs: "xs = map (\<lambda>a. val (heap m a)) rest"
    unfolding ns by simp_all
  from D(8) have ln: "len q = of_nat (Suc (length xs))" by simp
  have "last (b # rest) \<in> set (b # rest)" by (rule last_in_set) simp
  with dist have la: "a \<noteq> last (b # rest)" by auto
  have run: "Out (m, q) = Some (Inr (x, m', q'))"
    by (subst Out.simps) (simp add: hd tl nx x la cas_head_def m'_def q'_def del: last.simps)
  have ln': "len q + NOT 0 = of_nat (length xs)" unfolding ln by simp
  have "qinv m' q' (b # rest) xs"
    unfolding qinv_def using hd tl ch dist bnd xs ln'
    by (simp add: m'_def q'_def pool_put_def del: last.simps)
  then have "qinv m' q' (tl ns) xs" by (simp add: ns)
  moreover have "len q' = len q - 1" by (simp add: q'_def)
  moreover have "head q' \<noteq> head q" using hd dist by (simp add: q'_def)
  moreover have "pool m' = hd ns # pool m" by (simp add: m'_def pool_put_def ns)
  ultimately show ?thesis using run by blast
qed

lemma Out_step:
  assumes "qinv m q ns xs"
  shows "\<exists>m' q' ns'. Out (m, q) = Some (Inr (if xs = [] then None else hd xs, m', q')) \<and>
           qinv m' q' ns' (tl xs)"
proof (cases xs)
  case Nil
  with assms Out_empty[of m q ns] show ?thesis by auto
next
  case (Cons x xs')
  with assms Out_nonempty[of m q ns x xs'] show ?thesis by auto
qed

lemma exec_qinv:
  "qinv m q ns xs \<Longrightarrow>
   \<exists>m' q' ns'. exec ops (m, q) = Some (Inr (m', q')) \<and> qinv m' q' ns' (fifo ops xs)"
proof (induction ops arbitrary: m q ns xs)
  case Nil
  then show ?case by auto
next
  case (Cons o1 ops)
  show ?case
  proof (cases o1)
    case (Enq x k)
    from In_step[OF Cons.prems, of x k] obtain m1 q1 i where
      "In x k (m, q) = Some (Inr (m1, q1))" "qinv m1 q1 (ns @ [i]) (xs @ [x])" by blast
    with Cons.IH[of m1 q1 "ns @ [i]" "xs @ [x]"] Enq show ?thesis by auto
  next
    case Deq
    from Out_step[OF Cons.prems] obtain m1 q1 ns1 y where
      "Out (m, q) = Some (Inr (y, m1, q1))" "qinv m1 q1 ns1 (tl xs)" by blast
    with Cons.IH[of m1 q1 ns1 "tl xs"] Deq show ?thesis by auto
  qed
qed

lemma reach_qinv:
  assumes "pool_ok m0"
  shows "\<exists>m q ns. exec ops (NewQueue m0) = Some (Inr (m, q)) \<and> qinv m q ns (fifo ops [])"
proof -
  obtain m1 q1 where n: "NewQueue m0 = (m1, q1)" by (cases "NewQueue m0")
  with qinv_New[OF assms] have "qinv m1 q1 [fresh m0] []" by simp
  from exec_qinv[OF this, of ops] n show ?thesis by simp
qed


lemma enqueue_qinv:
  "qinv m q ns xs \<Longrightarrow>
   \<exists>m' q' ns'. exec (map (\<lambda>(x, k). Enq x k) vks) (m, q) = Some (Inr (m', q')) \<and>
      qinv m' q' ns' (xs @ map fst vks)"
proof (induction vks arbitrary: m q ns xs)
  case Nil
  then show ?case by auto
next
  case (Cons vk vks)
  obtain x k where vk: "vk = (x, k)" by (cases vk)
  from In_step[OF Cons.prems, of x k] obtain m1 q1 i where
    "In x k (m, q) = Some (Inr (m1, q1))" "qinv m1 q1 (ns @ [i]) (xs @ [x])" by blast
  with Cons.IH[of m1 q1 "ns @ [i]" "xs @ [x]"] vk show ?case by auto
qed

lemma dequeue_qinv:
  "qinv m q ns (xs @ ys) \<Longrightarrow>
   \<exists>m' q' ns'. dequeue_n (length xs) (m, q) = Some (Inr (xs, m', q')) \<and> qinv m' q' ns' ys"
proof (induction xs arbitrary: m q ns)
  case Nil
  then show ?case by auto
next
  case (Cons x xs)
  from Cons.prems have "qinv m q ns (x # (xs @ ys))" by simp
  from Out_nonempty[OF this] obtain m1 q1 where
    "Out (m, q) = Some (Inr (x, m1, q1))" "qinv m1 q1 (tl ns) (xs @ ys)" by blast
  with Cons.IH[of m1 q1 "tl ns"] show ?case by auto
qed

text \<open>
  A call that runs without interruption on a well-formed queue takes the same steps in the
  statement-by-statement semantics as \<open>In\<close> and \<open>Out\<close> compute at once.
\<close>

lemma solo_In:
  assumes "qinv m q ns xs"
  shows "\<exists>s'. In x k (m, q) = Some (Inr s') \<and>
           interleave [0, 0, 0, 0, 0, 0, 0, 0, 0] ([In_get x k], (m, q)) = Inr ([In_done], s')"
proof -
  obtain i m1 where pg: "pool_get k m = (i, m1)" by (cases "pool_get k m")
  from pool_get_props[OF assms pg]
  have i: "i \<notin> set ns" "qinv m1 q ns xs" by auto
  define m2 where "m2 = m1\<lparr>heap := (heap m1)(i := \<lparr>nxt = None, val = x\<rparr>)\<rparr>"
  have inv2: "qinv m2 q ns xs" unfolding m2_def using i(2,1) by (rule qinv_heap_upd_fresh)
  note D = qinvD[OF inv2]
  define l where "l = last ns"
  have tl: "tail q = Some l" using D(3) by (simp add: l_def)
  have nl: "nxt (heap m2 l) = None" unfolding l_def using D(4) D(1) by (rule chain_last_nxt)
  have li: "l \<noteq> i" using i(1) D(1) by (auto simp: l_def)
  have upd: "(heap m1 i)\<lparr>nxt := None, val := x\<rparr> = \<lparr>nxt = None, val = x\<rparr>"
    by (cases "heap m1 i") simp
  have big: "In x k (m, q) = Some (Inr (m2\<lparr>heap := (heap m2)(l := (heap m2 l)\<lparr>nxt := Some i\<rparr>)\<rparr>,
      q\<lparr>tail := Some i, len := len q + 1\<rparr>))"
    unfolding In_def
    by (simp add: pg m2_def[symmetric], subst In_loop.simps) (simp add: tl nl cas_next_def cas_tail_def)
  have small: "interleave [0, 0, 0, 0, 0, 0, 0, 0, 0] ([In_get x k], (m, q)) =
      Inr ([In_done], m2\<lparr>heap := (heap m2)(l := (heap m2 l)\<lparr>nxt := Some i\<rparr>)\<rparr>,
        q\<lparr>tail := Some i, len := len q + 1\<rparr>)"
    using tl nl li by (simp add: pg upd m2_def cas_next_def cas_tail_def)
  from big small show ?thesis by simp
qed

lemma solo_Out:
  assumes "qinv m q ns xs"
  shows "\<exists>y s'. Out (m, q) = Some (Inr (y, s')) \<and>
           interleave [0, 0, 0, 0, 0, 0, 0, 0] ([Out_load_head], (m, q)) = Inr ([Out_done y], s')"
proof (cases xs)
  case Nil
  note D = qinvD[OF assms]
  from D(1,7) Nil obtain a where ns: "ns = [a]" by (cases ns) auto
  with D have f: "head q = Some a" "tail q = Some a" "nxt (heap m a) = None" by simp_all
  have "Out (m, q) = Some (Inr (None, m, q))" using assms Nil Out_empty by blast
  moreover have "interleave [0, 0, 0, 0, 0, 0, 0, 0] ([Out_load_head], (m, q)) =
      Inr ([Out_done None], m, q)"
    by (simp add: f)
  ultimately show ?thesis by simp
next
  case (Cons x xs')
  note D = qinvD[OF assms]
  from D(7) Cons have tne: "tl ns \<noteq> []" by auto
  with D(1) obtain a b rest where ns: "ns = a # b # rest"
    by (cases ns; cases "tl ns") simp_all
  from D(2,3) have hd: "head q = Some a" and tl: "tail q = Some (last (b # rest))"
    unfolding ns by simp_all
  from D(4) have nx: "nxt (heap m a) = Some b" unfolding ns by simp
  from D(5) have dist: "distinct (a # b # rest @ pool m)" unfolding ns by simp
  have "last (b # rest) \<in> set (b # rest)" by (rule last_in_set) simp
  with dist have la: "a \<noteq> last (b # rest)" by auto
  have big: "Out (m, q) = Some (Inr (val (heap m b), pool_put a m,
      q\<lparr>head := Some b, len := len q + NOT 0\<rparr>))"
    by (subst Out.simps) (simp add: hd tl nx la cas_head_def del: last.simps)
  have small: "interleave [0, 0, 0, 0, 0, 0, 0, 0] ([Out_load_head], (m, q)) =
      Inr ([Out_done (val (heap m b))], pool_put a m, q\<lparr>head := Some b, len := len q + NOT 0\<rparr>)"
    by (simp add: hd tl nx la cas_head_def del: last.simps)
  from big small show ?thesis by simp
qed

text \<open>
  Claim C3. Enqueueing \<open>v1..vn\<close> into a freshly constructed queue, whatever items the pool
  hands out, and then dequeueing \<open>n\<close> times yields \<open>v1..vn\<close> in that order, and one more
  dequeue returns nil and leaves the queue as it is.
\<close>

theorem fifo_enqueue_then_dequeue:
  assumes "pool_ok m0"
  shows "\<exists>s s'. exec (map (\<lambda>(x, k). Enq x k) vks) (NewQueue m0) = Some (Inr s) \<and>
           dequeue_n (length vks) s = Some (Inr (map fst vks, s')) \<and>
           Out s' = Some (Inr (None, s'))"
proof -
  obtain m1 q1 where n: "NewQueue m0 = (m1, q1)" by (cases "NewQueue m0")
  with qinv_New[OF assms] have "qinv m1 q1 [fresh m0] []" by simp
  from enqueue_qinv[OF this, of vks] obtain m2 q2 ns2 where
    e: "exec (map (\<lambda>(x, k). Enq x k) vks) (m1, q1) = Some (Inr (m2, q2))"
    and i2: "qinv m2 q2 ns2 (map fst vks @ [])" by auto
  from dequeue_qinv[OF i2] obtain m3 q3 ns3 where
    d: "dequeue_n (length vks) (m2, q2) = Some (Inr (map fst vks, m3, q3))"
    and i3: "qinv m3 q3 ns3 []" by auto
  from Out_empty[OF i3] e d n show ?thesis by auto
qed

theorem fifo_enqueue_then_dequeue_witness:
  "pool_ok (mem0 :: nat mem) \<and>
   (\<exists>s s'. exec [Enq (Some 7) 0, Enq None 0, Enq (Some 9) 0] (NewQueue (mem0 :: nat mem)) = Some (Inr s) \<and>
      dequeue_n 3 s = Some (Inr ([Some 7, None, Some 9], s')) \<and> Out s' = Some (Inr (None, s')))"
proof -
  have h: "pool_ok (mem0 :: nat mem)" by (simp add: pool_ok_def mem0_def)
  show ?thesis
    using h fifo_enqueue_then_dequeue [OF h, of "[(Some 7, 0), (None, 0), (Some 9, 0)]"]
    by (simp add: numeral_3_eq_3 del: exec.simps dequeue_n.simps)
qed



text \<open>
  Calls that do not overlap: after any sequence of operations run one after the other the
  counter is the number of elements in the queue (as a 64-bit number, hence the exact number
  below \<open>2 ^ 64\<close>); an enqueue adds one, a dequeue of a non-empty queue subtracts one, and a
  dequeue of an empty queue leaves it.
\<close>

theorem len_counts_elements:
  assumes "pool_ok m0"
  shows "\<exists>s. exec ops (NewQueue m0) = Some (Inr s) \<and>
           Len (snd s) = of_nat (length (fifo ops [])) \<and>
           (length (fifo ops []) < 2 ^ 64 \<longrightarrow> unat (Len (snd s)) = length (fifo ops [])) \<and>
           (\<forall>x k. \<exists>s'. In x k s = Some (Inr s') \<and> Len (snd s') = Len (snd s) + 1) \<and>
           (\<exists>y s'. Out s = Some (Inr (y, s')) \<and>
              Len (snd s') = (if fifo ops [] = [] then Len (snd s) else Len (snd s) - 1))"
proof -
  from reach_qinv[OF assms, of ops] obtain m q ns where
    e: "exec ops (NewQueue m0) = Some (Inr (m, q))" and inv: "qinv m q ns (fifo ops [])" by blast
  have l: "Len q = of_nat (length (fifo ops []))" using qinvD(8)[OF inv] by (simp add: Len_def)
  have u: "length (fifo ops []) < 2 ^ 64 \<longrightarrow> unat (Len q) = length (fifo ops [])"
    unfolding l by (simp add: unsigned_of_nat take_bit_nat_eq_self)
  have i: "\<forall>x k. \<exists>s'. In x k (m, q) = Some (Inr s') \<and> Len (snd s') = Len q + 1"
  proof (intro allI)
    fix x k
    from In_step[OF inv, of x k] show "\<exists>s'. In x k (m, q) = Some (Inr s') \<and> Len (snd s') = Len q + 1"
      by (auto simp: Len_def)
  qed
  have o: "\<exists>y s'. Out (m, q) = Some (Inr (y, s')) \<and>
              Len (snd s') = (if fifo ops [] = [] then Len q else Len q - 1)"
  proof (cases "fifo ops []")
    case Nil
    with inv Out_empty[of m q ns] show ?thesis by auto
  next
    case (Cons y ys)
    with inv Out_nonempty[of m q ns y ys] show ?thesis by (auto simp: Len_def)
  qed
  from e l u i o show ?thesis by auto
qed

theorem len_counts_elements_witness:
  "pool_ok (mem0 :: nat mem) \<and>
   (\<exists>s. exec [Enq (Some (1::nat)) 0, Enq None 0, Deq, Enq (Some 2) 0] (NewQueue mem0) = Some (Inr s) \<and>
      unat (Len (snd s)) = 2)"
proof -
  have h: "pool_ok (mem0 :: nat mem)" by (simp add: pool_ok_def mem0_def)
  show ?thesis
    using h len_counts_elements [OF h, of "[Enq (Some (1::nat)) 0, Enq None 0, Deq, Enq (Some 2) 0]"]
    by (auto simp del: exec.simps)
qed

text \<open>
  Claim C7. With overlapping calls the counter is not the number of elements, even when no
  call is in flight any more. After \<^verbatim>\<open>In(1)\<close>, thread 1 runs \<^verbatim>\<open>Out\<close> up to its compare-and-swap
  on the head (it has read head node 0 and value 1). Thread 2 completes \<^verbatim>\<open>Out\<close> (value 1, node 0
  goes to the pool), thread 3 completes \<^verbatim>\<open>In(2)\<close> with node 0 taken from the pool, thread 4
  completes \<^verbatim>\<open>Out\<close> (value 2, head is node 0 again). Thread 1 resumes: its compare-and-swap
  finds the head it read, succeeds, and the counter is decremented below zero. All five calls
  have returned, value 1 was returned twice, and \<^verbatim>\<open>Len()\<close> is \<open>2 ^ 64 - 1\<close>.
\<close>

theorem len_wrong_after_overlapping_calls:
  "observe
     (interleave
        (replicate 9 0 @ replicate 5 1 @ replicate 8 2 @ replicate 9 3 @ replicate 8 4 @
         replicate 3 1)
        ([In_get (Some 1) 0, Out_load_head, Out_load_head, In_get (Some 2) 0, Out_load_head],
         NewQueue (mem0 :: nat mem))) =
   Inr ([In_done, Out_done (Some 1), Out_done (Some 1), In_done, Out_done (Some 2)],
        \<lparr>head = Some 1, tail = Some 0, len = 18446744073709551615\<rparr>, [0, 1])"
  by code_simp

text \<open>
  Claim C8. A dequeue on an empty queue returns nil without a panic and leaves memory, head,
  tail and the counter unchanged.
\<close>

theorem Out_on_empty_is_noop:
  assumes "pool_ok m0" and "fifo ops [] = []"
  shows "\<exists>s. exec ops (NewQueue m0) = Some (Inr s) \<and> Out s = Some (Inr (None, s))"
proof -
  from reach_qinv[OF assms(1), of ops] assms(2) obtain m q ns where
    "exec ops (NewQueue m0) = Some (Inr (m, q))" "qinv m q ns []" by auto
  with Out_empty[of m q ns] show ?thesis by auto
qed

theorem Out_on_empty_is_noop_witness:
  "pool_ok (mem0 :: nat mem) \<and> fifo [Enq (Some (1::nat)) 0, Deq, Deq] [] = [] \<and>
   (\<exists>s. exec [Enq (Some 1) 0, Deq, Deq] (NewQueue (mem0 :: nat mem)) = Some (Inr s) \<and>
      Out s = Some (Inr (None, s)))"
proof -
  have h: "pool_ok (mem0 :: nat mem)" by (simp add: pool_ok_def mem0_def)
  have f: "fifo [Enq (Some (1::nat)) 0, Deq, Deq] [] = []" by simp
  show ?thesis
    using h f Out_on_empty_is_noop [OF h f] by blast
qed

text \<open>
  Claim C9. On an empty queue \<^verbatim>\<open>Out()\<close> returns nil; after \<^verbatim>\<open>In(nil)\<close> it returns nil as
  well, although this time the counter is decremented, the head moves on, and the old head
  node goes to the pool.
\<close>

theorem nil_value_looks_like_empty:
  assumes "pool_ok m0" and "fifo ops [] = []"
  shows "\<exists>s s1 s2 a. exec ops (NewQueue m0) = Some (Inr s) \<and>
           Out s = Some (Inr (None, s)) \<and>
           In None k s = Some (Inr s1) \<and> head (snd s1) = Some a \<and>
           Out s1 = Some (Inr (None, s2)) \<and>
           Len (snd s2) = Len (snd s1) - 1 \<and> head (snd s2) \<noteq> Some a \<and>
           a \<in> set (pool (fst s2))"
proof -
  from reach_qinv[OF assms(1), of ops] assms(2) obtain m q ns where
    e: "exec ops (NewQueue m0) = Some (Inr (m, q))" and inv: "qinv m q ns []" by auto
  from In_step[OF inv, of None k] obtain m1 q1 i where
    i: "In None k (m, q) = Some (Inr (m1, q1))" and inv1: "qinv m1 q1 (ns @ [i]) [None]"
    by auto
  from Out_nonempty[OF inv1] obtain m2 q2 where
    o: "Out (m1, q1) = Some (Inr (None, m2, q2))" "len q2 = len q1 - 1" "head q2 \<noteq> head q1"
      "pool m2 = hd (ns @ [i]) # pool m1" by auto
  have "head q1 = Some (hd (ns @ [i]))" by (rule qinvD(2)[OF inv1])
  with e Out_empty[OF inv] i o show ?thesis by (auto simp: Len_def)
qed

theorem nil_value_looks_like_empty_witness:
  "pool_ok (mem0 :: nat mem) \<and> fifo [Enq (Some (1::nat)) 0, Deq] [] = [] \<and>
   (\<exists>s s1 s2 a. exec [Enq (Some 1) 0, Deq] (NewQueue (mem0 :: nat mem)) = Some (Inr s) \<and>
      Out s = Some (Inr (None, s)) \<and>
      In None 0 s = Some (Inr s1) \<and> head (snd s1) = Some a \<and>
      Out s1 = Some (Inr (None, s2)) \<and>
      Len (snd s2) = Len (snd s1) - 1 \<and> head (snd s2) \<noteq> Some a \<and>
      a \<in> set (pool (fst s2)))"
proof -
  have h: "pool_ok (mem0 :: nat mem)" by (simp add: pool_ok_def mem0_def)
  have f: "fifo [Enq (Some (1::nat)) 0, Deq] [] = []" by simp
  show ?thesis
    using h f nil_value_looks_like_empty [OF h f, of 0] by blast
qed

section \<open>The channel: proofs\<close>

lemma cinv_init: "cinv init"
  by (simp add: cinv_def init_def NewUnboundedChan_def)

lemma lift_Next: "lift r f = Next s' \<longleftrightarrow> (\<exists>c. r = Next c \<and> s' = f c)"
  by (cases r) auto

lemma cinv_Send: "cinv s \<Longrightarrow> step grow (Send x) s = Next s' \<Longrightarrow> cinv s'"
  by (auto simp: lift_Next send_in_def cinv_def Let_def split: if_splits)

lemma cinv_Recv: "cinv s \<Longrightarrow> step grow Recv s = Next s' \<Longrightarrow> cinv s'"
  by (auto simp: lift_Next recv_out_def cinv_def Let_def split: if_splits list.splits option.splits)

lemma cinv_CloseCall: "cinv s \<Longrightarrow> step grow CloseCall s = Next s' \<Longrightarrow> cinv s'"
  by (auto simp: lift_Next Close_def cinv_def Let_def split: if_splits)

lemma cinv_CloseInput: "cinv s \<Longrightarrow> step grow CloseInput s = Next s' \<Longrightarrow> cinv s'"
  by (auto simp: lift_Next close_in_def cinv_def Let_def split: if_splits)

lemma cinv_Disp:
  assumes "cinv s" "step grow (Disp ch) s = Next s'"
  shows "cinv s'"
proof -
  from assms(2) obtain c where d: "dispatcher grow ch (channel s) = Next c"
    and s': "s' = s\<lparr>channel := c\<rparr>" by (auto simp: lift_Next)
  show ?thesis
  proof (cases "pc (channel s)")
    case Start
    with d assms(1) show ?thesis unfolding s'
      by (auto simp: dispatcher_def processing_def cinv_def Let_def split: if_splits)
  next
    case Outer
    with d assms(1) show ?thesis unfolding s'
      by (auto simp: dispatcher_def processing_def take_in_def append_q_def cinv_def Let_def
          split: if_splits list.splits)
  next
    case Inner
    with d assms(1) show ?thesis unfolding s'
      by (auto simp: dispatcher_def processing_def take_in_def put_out_def append_q_def cinv_def Let_def
          split: if_splits list.splits choice.splits)
  next
    case CloseIn
    with d assms(1) show ?thesis unfolding s'
      by (auto simp: dispatcher_def closed_def cinv_def Let_def split: if_splits)
  next
    case Flush
    with d assms(1) show ?thesis unfolding s'
      by (auto simp: dispatcher_def closed_def append_q_def cinv_def Let_def split: if_splits list.splits)
  next
    case Drain
    with d assms(1) show ?thesis unfolding s'
      by (auto simp: dispatcher_def closed_def put_out_def cinv_def Let_def
          split: if_splits list.splits result.splits)
  next
    case CloseOut
    with d assms(1) show ?thesis unfolding s'
      by (auto simp: dispatcher_def closed_def cinv_def Let_def split: if_splits)
  next
    case CloseSig
    with d assms(1) show ?thesis unfolding s'
      by (auto simp: dispatcher_def closed_def cinv_def Let_def split: if_splits)
  next
    case Done
    with d assms(1) show ?thesis unfolding s'
      by (auto simp: dispatcher_def closed_def cinv_def Let_def split: if_splits)
  qed
qed

lemma cinv_step: "cinv s \<Longrightarrow> step grow e s = Next s' \<Longrightarrow> cinv s'"
  by (cases e) (auto intro: cinv_Send cinv_Recv cinv_CloseCall cinv_CloseInput cinv_Disp)

lemma cinv_run: "cinv s \<Longrightarrow> run grow evs s = Next s' \<Longrightarrow> cinv s'"
proof (induction evs arbitrary: s)
  case Nil
  then show ?case by simp
next
  case (Cons e evs)
  from Cons.prems(2) obtain s1 where 1: "step grow e s = Next s1" and 2: "run grow evs s1 = Next s'"
    by (auto split: result.splits)
  from cinv_step[OF Cons.prems(1) 1] 2 show ?case by (rule Cons.IH)
qed

lemma run_append:
  "run grow (es @ fs) s =
     (case run grow es s of Next s' \<Rightarrow> run grow fs s' | Crash p \<Rightarrow> Crash p | Blocks \<Rightarrow> Blocks)"
  by (induction es arbitrary: s) (auto split: result.splits)

lemma step_accepted:
  "step grow e s = Next s' \<Longrightarrow> accepted s' = accepted s @ sends_of [e]"
  by (cases e) (auto simp: lift_Next split: option.splits)

lemma sends_of_Cons: "sends_of (e # es) = sends_of [e] @ sends_of es"
  by (cases e) auto

lemma run_accepted:
  "run grow evs s = Next s' \<Longrightarrow> accepted s' = accepted s @ sends_of evs"
proof (induction evs arbitrary: s)
  case Nil
  then show ?case by simp
next
  case (Cons e evs)
  from Cons.prems obtain s1 where 1: "step grow e s = Next s1" and 2: "run grow evs s1 = Next s'"
    by (auto split: result.splits)
  from step_accepted[OF 1] Cons.IH[OF 2] show ?case
    by (subst sends_of_Cons) simp
qed

lemma progress_Start:
  assumes "cinv s" "\<not> misused s" "\<not> settled s" "outq (channel s) = []" "pc (channel s) = Start"
  shows "\<exists>s'. step grow (Disp Internal) s = Next s' \<and> mu s' < mu s \<and> \<not> misused s' \<and>
            (closing s' \<longleftrightarrow> closing s)"
  using assms
  by (auto simp: lift_Next dispatcher_def processing_def mu_def weight_def misused_def settled_def
          closing_def cinv_def Let_def)

lemma progress_CloseIn:
  assumes "cinv s" "\<not> misused s" "\<not> settled s" "outq (channel s) = []" "pc (channel s) = CloseIn"
  shows "\<exists>s'. step grow (Disp Internal) s = Next s' \<and> mu s' < mu s \<and> \<not> misused s' \<and>
            (closing s' \<longleftrightarrow> closing s)"
  using assms
  by (auto simp: lift_Next dispatcher_def closed_def mu_def weight_def misused_def settled_def
          closing_def cinv_def Let_def)

lemma progress_CloseSig:
  assumes "cinv s" "\<not> misused s" "\<not> settled s" "outq (channel s) = []" "pc (channel s) = CloseSig"
  shows "\<exists>s'. step grow (Disp Internal) s = Next s' \<and> mu s' < mu s \<and> \<not> misused s' \<and>
            (closing s' \<longleftrightarrow> closing s)"
  using assms
  by (auto simp: lift_Next dispatcher_def closed_def mu_def weight_def misused_def settled_def
          closing_def cinv_def Let_def)

lemma progress_Done:
  assumes "cinv s" "\<not> misused s" "\<not> settled s" "outq (channel s) = []" "pc (channel s) = Done"
  shows "\<exists>s'. step grow (Recv) s = Next s' \<and> mu s' < mu s \<and> \<not> misused s' \<and>
            (closing s' \<longleftrightarrow> closing s)"
  using assms
  by (auto simp: lift_Next recv_out_def mu_def weight_def misused_def settled_def
          closing_def cinv_def Let_def)

lemma progress_Outer:
  assumes "cinv s" "\<not> misused s" "\<not> settled s" "outq (channel s) = []" "pc (channel s) = Outer"
  shows "\<exists>s'. step grow (Disp TakeIn) s = Next s' \<and> mu s' < mu s \<and> \<not> misused s' \<and>
            (closing s' \<longleftrightarrow> closing s)"
proof -
  from assms(3,4,5) obtain e es where i: "inq (channel s) = e # es"
    by (cases "inq (channel s)") (simp_all add: settled_def closing_def)
  from assms(1,5) have q: "qbuf (channel s) = []" by (simp add: cinv_def Let_def)
  define s1 where "s1 = s\<lparr>channel := (append_q grow e ((channel s)\<lparr>inq := es\<rparr>))\<lparr>pc := Inner\<rparr>\<rparr>"
  have "step grow (Disp TakeIn) s = Next s1"
    by (simp add: dispatcher_def processing_def take_in_def assms(5) i s1_def)
  moreover have "mu s1 < mu s"
    by (simp add: mu_def Let_def s1_def append_q_def i q assms(5) weight_def)
  moreover have "\<not> misused s1" using assms(2,5)
    by (simp add: misused_def s1_def append_q_def)
  moreover have "closing s1 \<longleftrightarrow> closing s"
    by (simp add: closing_def s1_def append_q_def assms(5))
  ultimately show ?thesis by blast
qed

lemma progress_Inner:
  assumes "cinv s" "\<not> misused s" "\<not> settled s" "outq (channel s) = []" "pc (channel s) = Inner"
  shows "\<exists>ch s'. step grow (Disp ch) s = Next s' \<and> mu s' < mu s \<and> \<not> misused s' \<and>
            (closing s' \<longleftrightarrow> closing s)"
proof (cases "qbuf (channel s)")
  case Nil
  define s1 where "s1 = s\<lparr>channel := (if qcap (channel s) < 2 ^ 5
      then (channel s)\<lparr>qbuf := [], qcap := 2 ^ 10, pc := Outer\<rparr> else (channel s)\<lparr>pc := Outer\<rparr>)\<rparr>"
  have "step grow (Disp Internal) s = Next s1"
    by (simp add: dispatcher_def processing_def assms(5) Nil s1_def)
  moreover have "mu s1 < mu s"
    by (simp add: mu_def Let_def s1_def Nil assms(5) weight_def)
  moreover have "\<not> misused s1" using assms(2,5)
    by (simp add: misused_def s1_def)
  moreover have "closing s1 \<longleftrightarrow> closing s"
    by (simp add: closing_def s1_def assms(5))
  ultimately show ?thesis by blast
next
  case (Cons e es)
  from assms(1,5) have oc: "\<not> out_closed (channel s)" by (simp add: cinv_def Let_def)
  define s1 where "s1 = s\<lparr>channel := (channel s)\<lparr>outq := outq (channel s) @ [e], qbuf := es,
      qcap := qcap (channel s) - 1\<rparr>\<rparr>"
  have "step grow (Disp PutOut) s = Next s1"
    by (simp add: dispatcher_def processing_def put_out_def chan_cap_def assms(4,5) Cons oc s1_def)
  moreover have "mu s1 < mu s"
    by (simp add: mu_def Let_def s1_def Cons assms(4,5))
  moreover have "\<not> misused s1" using assms(2,5)
    by (simp add: misused_def s1_def)
  moreover have "closing s1 \<longleftrightarrow> closing s"
    by (simp add: closing_def s1_def assms(5))
  ultimately show ?thesis by blast
qed

lemma progress_Flush:
  assumes "cinv s" "\<not> misused s" "\<not> settled s" "outq (channel s) = []" "pc (channel s) = Flush"
  shows "\<exists>s'. step grow (Disp Internal) s = Next s' \<and> mu s' < mu s \<and> \<not> misused s' \<and>
            (closing s' \<longleftrightarrow> closing s)"
proof (cases "inq (channel s)")
  case Nil
  from assms(1,5) have ic: "in_closed (channel s)" by (simp add: cinv_def Let_def)
  define s1 where "s1 = s\<lparr>channel := (channel s)\<lparr>pc := Drain\<rparr>\<rparr>"
  have "step grow (Disp Internal) s = Next s1"
    by (simp add: dispatcher_def closed_def assms(5) Nil ic s1_def)
  moreover have "mu s1 < mu s"
    by (simp add: mu_def Let_def s1_def assms(5) weight_def)
  moreover have "\<not> misused s1" by (simp add: misused_def s1_def)
  moreover have "closing s1 \<longleftrightarrow> closing s"
    by (simp add: closing_def s1_def assms(5))
  ultimately show ?thesis by blast
next
  case (Cons e es)
  define s1 where "s1 = s\<lparr>channel := append_q grow e ((channel s)\<lparr>inq := es\<rparr>)\<rparr>"
  have "step grow (Disp Internal) s = Next s1"
    by (simp add: dispatcher_def closed_def assms(5) Cons s1_def)
  moreover have "mu s1 < mu s"
    by (simp add: mu_def Let_def s1_def append_q_def Cons)
  moreover have "\<not> misused s1" by (simp add: misused_def s1_def append_q_def assms(5))
  moreover have "closing s1 \<longleftrightarrow> closing s"
    by (simp add: closing_def s1_def append_q_def)
  ultimately show ?thesis by blast
qed

lemma progress_Drain:
  assumes "cinv s" "\<not> misused s" "\<not> settled s" "outq (channel s) = []" "pc (channel s) = Drain"
  shows "\<exists>s'. step grow (Disp Internal) s = Next s' \<and> mu s' < mu s \<and> \<not> misused s' \<and>
            (closing s' \<longleftrightarrow> closing s)"
proof (cases "qbuf (channel s)")
  case Nil
  define s1 where "s1 = s\<lparr>channel := (channel s)\<lparr>pc := CloseOut\<rparr>\<rparr>"
  have "step grow (Disp Internal) s = Next s1"
    by (simp add: dispatcher_def closed_def assms(5) Nil s1_def)
  moreover have "mu s1 < mu s"
    by (simp add: mu_def Let_def s1_def assms(5) weight_def)
  moreover have "\<not> misused s1" by (simp add: misused_def s1_def)
  moreover have "closing s1 \<longleftrightarrow> closing s"
    by (simp add: closing_def s1_def assms(5))
  ultimately show ?thesis by blast
next
  case (Cons e es)
  from assms(1,5) have oc: "\<not> out_closed (channel s)" by (simp add: cinv_def Let_def)
  define s1 where "s1 = s\<lparr>channel := (channel s)\<lparr>outq := outq (channel s) @ [e], qbuf := es,
      qcap := qcap (channel s) - 1\<rparr>\<rparr>"
  have "step grow (Disp Internal) s = Next s1"
    by (simp add: dispatcher_def closed_def put_out_def chan_cap_def assms(4,5) Cons oc s1_def)
  moreover have "mu s1 < mu s"
    by (simp add: mu_def Let_def s1_def Cons assms(4,5))
  moreover have "\<not> misused s1" by (simp add: misused_def s1_def assms(5))
  moreover have "closing s1 \<longleftrightarrow> closing s"
    by (simp add: closing_def s1_def assms(5))
  ultimately show ?thesis by blast
qed

lemma progress_CloseOut:
  assumes "cinv s" "\<not> misused s" "\<not> settled s" "outq (channel s) = []" "pc (channel s) = CloseOut"
  shows "\<exists>s'. step grow (Disp Internal) s = Next s' \<and> mu s' < mu s \<and> \<not> misused s' \<and>
            (closing s' \<longleftrightarrow> closing s)"
proof -
  from assms(1,5) have oc: "\<not> out_closed (channel s)" by (simp add: cinv_def Let_def)
  define s1 where "s1 = s\<lparr>channel := (channel s)\<lparr>out_closed := True, pc := CloseSig\<rparr>\<rparr>"
  have "step grow (Disp Internal) s = Next s1"
    by (simp add: dispatcher_def closed_def assms(5) oc s1_def)
  moreover have "mu s1 < mu s"
    by (simp add: mu_def Let_def s1_def assms(5) weight_def)
  moreover have "\<not> misused s1" by (simp add: misused_def s1_def)
  moreover have "closing s1 \<longleftrightarrow> closing s"
    by (simp add: closing_def s1_def assms(5))
  ultimately show ?thesis by blast
qed

lemma progress_Recv:
  assumes "outq (channel s) = x # xs" "\<not> misused s"
  shows "\<exists>s'. step grow Recv s = Next s' \<and> mu s' < mu s \<and> \<not> misused s' \<and>
            (closing s' \<longleftrightarrow> closing s)"
proof -
  define s1 where "s1 = s\<lparr>channel := (channel s)\<lparr>outq := xs\<rparr>, received := received s @ [x]\<rparr>"
  have "step grow Recv s = Next s1" using assms(1) by (simp add: recv_out_def s1_def)
  moreover have "mu s1 < mu s" using assms(1) by (simp add: mu_def Let_def s1_def)
  moreover have "\<not> misused s1" using assms(2) by (simp add: misused_def s1_def)
  moreover have "closing s1 \<longleftrightarrow> closing s" by (simp add: closing_def s1_def)
  ultimately show ?thesis by blast
qed

lemma progress:
  assumes "cinv s" "\<not> misused s" "\<not> settled s"
  shows "\<exists>e s'. quiet e \<and> step grow e s = Next s' \<and> mu s' < mu s \<and> \<not> misused s' \<and>
            (closing s' \<longleftrightarrow> closing s)"
proof (cases "outq (channel s)")
  case (Cons x xs)
  from progress_Recv[OF Cons assms(2)] show ?thesis
    by (intro exI[of _ Recv]) (simp add: quiet_def)
next
  case Nil
  have q: "quiet Recv" "\<And>ch. quiet (Disp ch)" by (simp_all add: quiet_def)
  show ?thesis
  proof (cases "pc (channel s)")
    case Start
    from progress_Start[OF assms Nil Start] q show ?thesis by blast
  next
    case Outer
    from progress_Outer[OF assms Nil Outer] q show ?thesis by blast
  next
    case Inner
    from progress_Inner[OF assms Nil Inner] q show ?thesis by blast
  next
    case CloseIn
    from progress_CloseIn[OF assms Nil CloseIn] q show ?thesis by blast
  next
    case Flush
    from progress_Flush[OF assms Nil Flush] q show ?thesis by blast
  next
    case Drain
    from progress_Drain[OF assms Nil Drain] q show ?thesis by blast
  next
    case CloseOut
    from progress_CloseOut[OF assms Nil CloseOut] q show ?thesis by blast
  next
    case CloseSig
    from progress_CloseSig[OF assms Nil CloseSig] q show ?thesis by blast
  next
    case Done
    from progress_Done[OF assms Nil Done] q show ?thesis by blast
  qed
qed

lemma completion:
  assumes "cinv s" "\<not> misused s"
  shows "\<exists>evs s'. list_all quiet evs \<and> run grow evs s = Next s' \<and> settled s' \<and>
            (closing s' \<longleftrightarrow> closing s)"
  using assms
proof (induction "mu s" arbitrary: s rule: less_induct)
  case less
  show ?case
  proof (cases "settled s")
    case True
    then show ?thesis by (intro exI[of _ "[]"] exI[of _ s]) simp
  next
    case False
    from progress[OF less.prems False, of grow] obtain e s1 where
      e: "quiet e" "step grow e s = Next s1" "mu s1 < mu s" "\<not> misused s1"
        "closing s1 \<longleftrightarrow> closing s" by blast
    from cinv_step[OF less.prems(1) e(2)] have "cinv s1" .
    from less.hyps[OF e(3) this e(4)] obtain evs s' where
      r: "list_all quiet evs" "run grow evs s1 = Next s'" "settled s'" "closing s' \<longleftrightarrow> closing s1"
      by blast
    show ?thesis
      using e r by (intro exI[of _ "e # evs"] exI[of _ s']) simp
  qed
qed

lemma quiet_sends: "list_all quiet evs \<Longrightarrow> sends_of evs = []"
proof (induction evs)
  case Nil
  then show ?case by simp
next
  case (Cons e evs)
  then show ?case by (cases e) (simp_all add: quiet_def)
qed

lemma cinvD:
  assumes "cinv s"
  shows "received s @ outq (channel s) @ qbuf (channel s) @ inq (channel s) = accepted s"
    "pc (channel s) = Outer \<Longrightarrow> qbuf (channel s) = [] \<and> 2 ^ 5 \<le> qcap (channel s)"
    "pc (channel s) \<in> {Flush, Drain, CloseOut, CloseSig, Done} \<Longrightarrow> in_closed (channel s)"
    "pc (channel s) \<in> {Drain, CloseOut, CloseSig, Done} \<Longrightarrow> inq (channel s) = []"
    "pc (channel s) \<in> {CloseOut, CloseSig, Done} \<Longrightarrow> qbuf (channel s) = []"
    "out_closed (channel s) \<longleftrightarrow> pc (channel s) \<in> {CloseSig, Done}"
    "close_closed (channel s) \<longleftrightarrow> pc (channel s) = Done"
    "eos s \<Longrightarrow> out_closed (channel s) \<and> outq (channel s) = []"
  using assms unfolding cinv_def Let_def by blast+

lemma settled_all_received:
  assumes "cinv s" "settled s"
  shows "received s = accepted s"
proof (cases "closing s")
  case True
  with assms(2) have e: "eos s" by (simp add: settled_def)
  note D = cinvD[OF assms(1)]
  from D(8)[OF e] have o: "out_closed (channel s)" "outq (channel s) = []" by simp_all
  from o(1) D(6) have p: "pc (channel s) \<in> {CloseSig, Done}" by simp
  then have "inq (channel s) = []" "qbuf (channel s) = []"
    using D(4) D(5) by auto
  with o(2) D(1) show ?thesis by simp
next
  case False
  with assms(2) have p: "pc (channel s) = Outer" "inq (channel s) = []" "outq (channel s) = []"
    by (simp_all add: settled_def)
  note D = cinvD[OF assms(1)]
  from D(2)[OF p(1)] have "qbuf (channel s) = []" by simp
  with p D(1) show ?thesis by simp
qed

lemma sends_of_append: "sends_of (es @ fs) = sends_of es @ sends_of fs"
proof (induction es)
  case Nil
  then show ?case by simp
next
  case (Cons e es)
  then show ?case by (cases e) simp_all
qed

lemma reach_cinv: "run grow evs init = Next s \<Longrightarrow> cinv s"
  using cinv_init by (rule cinv_run)

lemma closing_step: "closing s \<Longrightarrow> step grow e s = Next s' \<Longrightarrow> closing s'"
proof (cases e)
  case (Disp ch)
  assume "closing s" "step grow e s = Next s'"
  with Disp show ?thesis
    by (cases "pc (channel s)")
      (auto simp: lift_Next closing_def dispatcher_def closed_def put_out_def append_q_def
        split: if_splits list.splits result.splits)
qed (auto simp: lift_Next closing_def send_in_def recv_out_def Close_def close_in_def
      split: if_splits list.splits option.splits)

lemma closing_run: "closing s \<Longrightarrow> run grow evs s = Next s' \<Longrightarrow> closing s'"
proof (induction evs arbitrary: s)
  case Nil
  then show ?case by simp
next
  case (Cons e evs)
  from Cons.prems(2) obtain s1 where 1: "step grow e s = Next s1" and 2: "run grow evs s1 = Next s'"
    by (auto split: result.splits)
  from closing_step[OF Cons.prems(1) 1] 2 show ?case by (rule Cons.IH)
qed

lemma misused_step:
  assumes "\<not> misused s" "e \<noteq> CloseInput" "step grow e s = Next s'"
  shows "\<not> misused s'"
proof (cases e)
  case (Disp ch)
  with assms show ?thesis
    by (cases "pc (channel s)")
      (auto simp: lift_Next misused_def dispatcher_def processing_def closed_def take_in_def
        put_out_def append_q_def split: if_splits list.splits result.splits choice.splits)
qed (use assms in \<open>auto simp: lift_Next misused_def send_in_def recv_out_def Close_def
      split: if_splits list.splits option.splits\<close>)

lemma misused_run:
  "\<not> misused s \<Longrightarrow> CloseInput \<notin> set evs \<Longrightarrow> run grow evs s = Next s' \<Longrightarrow> \<not> misused s'"
proof (induction evs arbitrary: s)
  case Nil
  then show ?case by simp
next
  case (Cons e evs)
  from Cons.prems(3) obtain s1 where 1: "step grow e s = Next s1" and 2: "run grow evs s1 = Next s'"
    by (auto split: result.splits)
  from Cons.prems(2) have "e \<noteq> CloseInput" "CloseInput \<notin> set evs" by auto
  from misused_step[OF Cons.prems(1) this(1) 1] this(2) 2 show ?case by (rule Cons.IH)
qed

lemma producing_no_CloseInput: "list_all producing evs \<Longrightarrow> CloseInput \<notin> set evs"
  by (auto simp: list_all_iff producing_def)

lemma quiet_no_CloseInput: "list_all quiet evs \<Longrightarrow> CloseInput \<notin> set evs"
  by (auto simp: list_all_iff quiet_def)

lemma not_misused_init: "\<not> misused init"
  by (simp add: misused_def init_def NewUnboundedChan_def)

text \<open>
  Claim C2. In every reachable state each value whose send returned is in exactly one place
  and in send order: first the values already received, then the buffer of \<^verbatim>\<open>ch.out\<close>, then
  \<^verbatim>\<open>ch.q\<close>, then the buffer of \<^verbatim>\<open>ch.in\<close>. So the receiver has seen a prefix of the sends, and
  while the channel is open the dispatcher and the receiver alone can deliver the rest.
\<close>

theorem send_order_preserved:
  assumes "run grow evs init = Next s"
  shows "accepted s = sends_of evs \<and>
         received s @ outq (channel s) @ qbuf (channel s) @ inq (channel s) = sends_of evs \<and>
         prefix (received s) (sends_of evs) \<and>
         (\<not> closing s \<and> \<not> in_closed (channel s) \<longrightarrow>
            (\<exists>evs' s'. list_all quiet evs' \<and> run grow evs' s = Next s' \<and>
               \<not> closing s' \<and> received s' = sends_of evs))"
proof -
  have acc: "accepted s = sends_of evs"
    using run_accepted[OF assms] by (simp add: init_def)
  have inv: "cinv s" using assms by (rule reach_cinv)
  have c: "received s @ outq (channel s) @ qbuf (channel s) @ inq (channel s) = sends_of evs"
    using cinvD(1)[OF inv] acc by simp
  then have p: "prefix (received s) (sends_of evs)" by (metis prefixI)
  have l: "\<exists>evs' s'. list_all quiet evs' \<and> run grow evs' s = Next s' \<and>
               \<not> closing s' \<and> received s' = sends_of evs"
    if "\<not> closing s" "\<not> in_closed (channel s)"
  proof -
    from that(2) have "\<not> misused s" by (simp add: misused_def)
    from completion[OF inv this, of grow] obtain evs' s' where
      c: "list_all quiet evs'" "run grow evs' s = Next s'" "settled s'" "closing s' \<longleftrightarrow> closing s"
      by blast
    have "cinv s'" using inv c(2) by (rule cinv_run)
    from settled_all_received[OF this c(3)] have "received s' = accepted s'" .
    moreover have "accepted s' = sends_of evs"
      using run_accepted[OF c(2)] quiet_sends[OF c(1)] acc by simp
    ultimately show ?thesis using c that(1) by auto
  qed
  from acc c p l show ?thesis by blast
qed

theorem send_order_preserved_witness:
  "run double [Disp Internal, Send 1, Send 2, Disp TakeIn, Disp PutOut, Recv, Send 3] init =
     Next (\<lparr>channel = \<lparr>inq = [2, 3], in_closed = False, outq = [], out_closed = False,
              close_closed = False, qbuf = [], qcap = 1023, pc = Inner\<rparr>,
           accepted = [1, 2, 3], received = [1], eos = False\<rparr> :: nat sys) \<and>
   prefix [1] (sends_of [Disp Internal, Send 1, Send 2, Disp TakeIn, Disp PutOut, Recv, Send (3::nat)])"
proof -
  let ?evs = "[Disp Internal, Send 1, Send 2, Disp TakeIn, Disp PutOut, Recv, Send (3::nat)]"
  let ?s = "\<lparr>channel = \<lparr>inq = [2, 3], in_closed = False, outq = [], out_closed = False,
              close_closed = False, qbuf = [], qcap = 1023, pc = Inner\<rparr>,
           accepted = [1, 2, 3], received = [1], eos = False\<rparr> :: nat sys"
  have h: "run double ?evs init = Next ?s" by code_simp
  from send_order_preserved [OF h] have "prefix (received ?s) (sends_of ?evs)" by blast
  then have r: "prefix [1] (sends_of ?evs)" by simp
  show ?thesis by (intro conjI h r)
qed

text \<open>
  Claim C1. Values are sent (the dispatcher running as it likes), then \<^verbatim>\<open>Close()\<close> returns,
  and only then receives begin. Whatever the dispatcher and the receiver do afterwards, the
  values received are a prefix of the values sent, the end of the stream is reported only
  after all of them, and from every such state the dispatcher and the receiver can finish:
  all values received, in order, and then the end of the stream.
\<close>

theorem drain_on_close:
  assumes "list_all producing evs1"
    and "run grow (evs1 @ [CloseCall]) init = Next s"
    and "list_all quiet evs2"
    and "run grow evs2 s = Next s'"
  shows "prefix (received s') (sends_of evs1) \<and>
         (eos s' \<longrightarrow> received s' = sends_of evs1) \<and>
         (\<exists>evs3 s''. list_all quiet evs3 \<and> run grow evs3 s' = Next s'' \<and>
            received s'' = sends_of evs1 \<and> eos s'')"
proof -
  have acc: "accepted s = sends_of evs1"
    using run_accepted[OF assms(2)] by (simp add: sends_of_append init_def)
  have acc': "accepted s' = sends_of evs1"
    using run_accepted[OF assms(4)] quiet_sends[OF assms(3)] acc by simp
  have inv: "cinv s" using assms(2) by (rule reach_cinv)
  have inv': "cinv s'" using inv assms(4) by (rule cinv_run)
  obtain s0 where s0: "run grow evs1 init = Next s0" "step grow CloseCall s0 = Next s"
    using assms(2) by (auto simp: run_append split: result.splits)
  have "\<not> misused s0"
    using not_misused_init producing_no_CloseInput[OF assms(1)] s0(1) by (rule misused_run)
  then have nm: "\<not> misused s" using misused_step[of s0 CloseCall grow s] s0(2) by simp
  have nm': "\<not> misused s'"
    using nm quiet_no_CloseInput[OF assms(3)] assms(4) by (rule misused_run)
  have "closing s" using s0(2) by (auto simp: lift_Next Close_def closing_def split: if_splits)
  then have cl': "closing s'" using assms(4) by (rule closing_run)
  have p: "prefix (received s') (sends_of evs1)"
    using cinvD(1)[OF inv'] unfolding acc' by (metis prefixI)
  have e: "eos s' \<longrightarrow> received s' = sends_of evs1"
    using settled_all_received[OF inv'] cl' acc' by (simp add: settled_def)
  from completion[OF inv' nm', of grow] obtain evs3 s'' where
    c: "list_all quiet evs3" "run grow evs3 s' = Next s''" "settled s''" "closing s'' \<longleftrightarrow> closing s'"
    by blast
  have "cinv s''" using inv' c(2) by (rule cinv_run)
  from settled_all_received[OF this c(3)] have "received s'' = accepted s''" .
  moreover have "accepted s'' = sends_of evs1"
    using run_accepted[OF c(2)] quiet_sends[OF c(1)] acc' by simp
  moreover have "eos s''" using c(3,4) cl' by (simp add: settled_def)
  ultimately have "\<exists>evs3 s''. list_all quiet evs3 \<and> run grow evs3 s' = Next s'' \<and>
            received s'' = sends_of evs1 \<and> eos s''" using c(1,2) by auto
  with p e show ?thesis by blast
qed

theorem drain_on_close_witness:
  "run double ([Disp Internal, Send 1, Send 2, Disp TakeIn, Send 3] @ [CloseCall]) init =
     Next (\<lparr>channel = \<lparr>inq = [2, 3], in_closed = False, outq = [], out_closed = False,
              close_closed = False, qbuf = [1], qcap = 1024, pc = CloseIn\<rparr>,
           accepted = [1, 2, 3], received = [], eos = False\<rparr> :: nat sys) \<and>
   run double
     [Disp Internal, Disp Internal, Disp Internal, Disp Internal, Disp Internal, Recv,
      Disp Internal, Disp Internal, Recv, Disp Internal, Disp Internal, Disp Internal, Recv, Recv]
     (\<lparr>channel = \<lparr>inq = [2, 3], in_closed = False, outq = [], out_closed = False,
              close_closed = False, qbuf = [1], qcap = 1024, pc = CloseIn\<rparr>,
       accepted = [1, 2, 3], received = [], eos = False\<rparr> :: nat sys) =
     Next (\<lparr>channel = \<lparr>inq = [], in_closed = True, outq = [], out_closed = True,
              close_closed = True, qbuf = [], qcap = 1021, pc = Done\<rparr>,
           accepted = [1, 2, 3], received = [1, 2, 3], eos = True\<rparr> :: nat sys) \<and>
   [1, 2, 3] = sends_of [Disp Internal, Send 1, Send 2, Disp TakeIn, Send (3::nat)]"
proof -
  let ?evs1 = "[Disp Internal, Send 1, Send 2, Disp TakeIn, Send (3::nat)]"
  let ?evs2 = "[Disp Internal, Disp Internal, Disp Internal, Disp Internal, Disp Internal, Recv,
      Disp Internal, Disp Internal, Recv, Disp Internal, Disp Internal, Disp Internal, Recv, Recv]
      :: nat event list"
  let ?s = "\<lparr>channel = \<lparr>inq = [2, 3], in_closed = False, outq = [], out_closed = False,
              close_closed = False, qbuf = [1], qcap = 1024, pc = CloseIn\<rparr>,
           accepted = [1, 2, 3], received = [], eos = False\<rparr> :: nat sys"
  let ?s' = "\<lparr>channel = \<lparr>inq = [], in_closed = True, outq = [], out_closed = True,
              close_closed = True, qbuf = [], qcap = 1021, pc = Done\<rparr>,
           accepted = [1, 2, 3], received = [1, 2, 3], eos = True\<rparr> :: nat sys"
  have h1: "list_all producing ?evs1" by (simp add: producing_def)
  have h2: "run double (?evs1 @ [CloseCall]) init = Next ?s" by code_simp
  have h3: "list_all quiet ?evs2" by (simp add: quiet_def)
  have h4: "run double ?evs2 ?s = Next ?s'" by code_simp
  from drain_on_close [OF h1 h2 h3 h4]
  have "eos ?s' \<longrightarrow> received ?s' = sends_of ?evs1" by blast
  then have r: "[1, 2, 3] = sends_of ?evs1" by simp
  show ?thesis by (intro conjI h2 h4 r)
qed

text \<open>
  Claim C5, as stated, fails. \<^verbatim>\<open>Close()\<close> returns as soon as the dispatcher has taken the
  request, before \<^verbatim>\<open>close(ch.in)\<close>: a send made then is accepted. And while the dispatcher is
  in the second loop of \<^verbatim>\<open>closed\<close> with \<^verbatim>\<open>ch.out\<close> full and a value left in \<^verbatim>\<open>ch.q\<close>, a step of
  the dispatcher changes nothing and a second \<^verbatim>\<open>Close()\<close> blocks.
\<close>

theorem misuse_after_close_counterexample:
  "run double [Disp Internal, CloseCall, Send 1] init =
     Next (\<lparr>channel = \<lparr>inq = [1], in_closed = False, outq = [], out_closed = False,
              close_closed = False, qbuf = [], qcap = 1024, pc = CloseIn\<rparr>,
           accepted = [1], received = [], eos = False\<rparr> :: nat sys) \<and>
   run double
     (Disp Internal # replicate 16 (Send 0) @ replicate 16 (Disp TakeIn) @
      [Send 0, Disp TakeIn, CloseCall] @ replicate 18 (Disp Internal)) init =
     Next (\<lparr>channel = \<lparr>inq = [], in_closed = True, outq = replicate 16 0, out_closed = False,
              close_closed = False, qbuf = [0], qcap = 1008, pc = Drain\<rparr>,
           accepted = replicate 17 0, received = [], eos = False\<rparr> :: nat sys) \<and>
   step double (Disp Internal)
     (\<lparr>channel = \<lparr>inq = [], in_closed = True, outq = replicate 16 0, out_closed = False,
              close_closed = False, qbuf = [0], qcap = 1008, pc = Drain\<rparr>,
      accepted = replicate 17 0, received = [], eos = False\<rparr> :: nat sys) =
     Next (\<lparr>channel = \<lparr>inq = [], in_closed = True, outq = replicate 16 0, out_closed = False,
              close_closed = False, qbuf = [0], qcap = 1008, pc = Drain\<rparr>,
           accepted = replicate 17 0, received = [], eos = False\<rparr> :: nat sys) \<and>
   step double CloseCall
     (\<lparr>channel = \<lparr>inq = [], in_closed = True, outq = replicate 16 0, out_closed = False,
              close_closed = False, qbuf = [0], qcap = 1008, pc = Drain\<rparr>,
      accepted = replicate 17 0, received = [], eos = False\<rparr> :: nat sys) = Blocks"
  by code_simp

text \<open>
  Claim C5, amended. Once the dispatcher has closed \<^verbatim>\<open>ch.in\<close> (the first statement of
  \<^verbatim>\<open>closed\<close>), a send panics; once \<^verbatim>\<open>closed\<close> has returned, a second \<^verbatim>\<open>Close()\<close> panics; from
  the moment the close request was taken until then, a second \<^verbatim>\<open>Close()\<close> blocks.
\<close>

theorem misuse_after_close_panics:
  assumes "run grow evs init = Next s"
  shows "(pc (channel s) \<in> {Flush, Drain, CloseOut, CloseSig, Done} \<longrightarrow>
            step grow (Send x) s = Crash SendOnClosedChannel) \<and>
         (pc (channel s) = Done \<longrightarrow> step grow CloseCall s = Crash SendOnClosedChannel) \<and>
         (closing s \<and> pc (channel s) \<noteq> Done \<longrightarrow> step grow CloseCall s = Blocks)"
proof -
  have inv: "cinv s" using assms by (rule reach_cinv)
  note D = cinvD[OF inv]
  have 1: "step grow (Send x) s = Crash SendOnClosedChannel"
    if "pc (channel s) \<in> {Flush, Drain, CloseOut, CloseSig, Done}"
    using D(3)[OF that] by (simp add: send_in_def)
  have 2: "step grow CloseCall s = Crash SendOnClosedChannel" if "pc (channel s) = Done"
    using D(7) that by (simp add: Close_def)
  have 3: "step grow CloseCall s = Blocks" if "closing s" "pc (channel s) \<noteq> Done"
    using that D(7) by (simp add: Close_def closing_def)
  from 1 2 3 show ?thesis by blast
qed

theorem misuse_after_close_panics_witness:
  "run double [Disp Internal, Send 1, Disp TakeIn, CloseCall, Disp Internal, Disp Internal,
      Disp Internal, Disp Internal, Disp Internal, Disp Internal] init =
     Next (\<lparr>channel = \<lparr>inq = [], in_closed = True, outq = [1], out_closed = True,
              close_closed = True, qbuf = [], qcap = 1023, pc = Done\<rparr>,
           accepted = [1], received = [], eos = False\<rparr> :: nat sys) \<and>
   step double (Send 2)
     (\<lparr>channel = \<lparr>inq = [], in_closed = True, outq = [1], out_closed = True,
              close_closed = True, qbuf = [], qcap = 1023, pc = Done\<rparr>,
      accepted = [1], received = [], eos = False\<rparr> :: nat sys) = Crash SendOnClosedChannel \<and>
   step double CloseCall
     (\<lparr>channel = \<lparr>inq = [], in_closed = True, outq = [1], out_closed = True,
              close_closed = True, qbuf = [], qcap = 1023, pc = Done\<rparr>,
      accepted = [1], received = [], eos = False\<rparr> :: nat sys) = Crash SendOnClosedChannel"
proof -
  let ?evs = "[Disp Internal, Send (1::nat), Disp TakeIn, CloseCall, Disp Internal, Disp Internal,
      Disp Internal, Disp Internal, Disp Internal, Disp Internal]"
  let ?s = "\<lparr>channel = \<lparr>inq = [], in_closed = True, outq = [1], out_closed = True,
              close_closed = True, qbuf = [], qcap = 1023, pc = Done\<rparr>,
           accepted = [1], received = [], eos = False\<rparr> :: nat sys"
  have h: "run double ?evs init = Next ?s" by code_simp
  have p: "pc (channel ?s) \<in> {Flush, Drain, CloseOut, CloseSig, Done}" "pc (channel ?s) = Done"
    by simp_all
  from misuse_after_close_panics [OF h, of 2] p
  have r: "step double (Send 2) ?s = Crash SendOnClosedChannel"
    "step double CloseCall ?s = Crash SendOnClosedChannel" by blast+
  show ?thesis by (intro conjI h r)
qed

text \<open>
  Claim C4, as stated, fails: sixteen sends fill the buffer of \<^verbatim>\<open>ch.in\<close> when the
  dispatcher has not run yet, and the seventeenth send blocks.
\<close>

theorem send_never_blocks_counterexample:
  "run double (replicate 16 (Send 0)) init =
     Next (\<lparr>channel = \<lparr>inq = replicate 16 0, in_closed = False, outq = [], out_closed = False,
              close_closed = False, qbuf = [], qcap = 0, pc = Start\<rparr>,
           accepted = replicate 16 0, received = [], eos = False\<rparr> :: nat sys) \<and>
   step double (Send 0)
     (\<lparr>channel = \<lparr>inq = replicate 16 0, in_closed = False, outq = [], out_closed = False,
              close_closed = False, qbuf = [], qcap = 0, pc = Start\<rparr>,
      accepted = replicate 16 0, received = [], eos = False\<rparr> :: nat sys) = Blocks"
  by code_simp

lemma take_then_send:
  assumes "pc (channel s) = Outer \<or> (pc (channel s) = Inner \<and> qbuf (channel s) \<noteq> [])"
    and "inq (channel s) = e # es" "length (inq (channel s)) \<le> chan_cap"
    and "\<not> in_closed (channel s)"
  shows "\<exists>s1 s'. step grow (Disp TakeIn) s = Next s1 \<and> step grow (Send x) s1 = Next s'"
proof -
  define s1 where "s1 = s\<lparr>channel := (append_q grow e ((channel s)\<lparr>inq := es\<rparr>))\<lparr>pc := Inner\<rparr>\<rparr>"
  have "step grow (Disp TakeIn) s = Next s1"
    using assms(1,2) by (auto simp: dispatcher_def processing_def take_in_def s1_def)
  moreover have "\<exists>s'. step grow (Send x) s1 = Next s'"
    using assms(2,3,4) by (simp add: send_in_def s1_def append_q_def)
  ultimately show ?thesis by blast
qed

text \<open>
  Claim C4, amended. While the channel is open, a send returns at once when fewer than 16
  values are staged in \<^verbatim>\<open>ch.in\<close>, however long \<^verbatim>\<open>ch.q\<close> is and whether or not \<^verbatim>\<open>ch.out\<close> is
  full; otherwise it returns after at most two steps of the dispatcher, which is always
  able to receive from \<^verbatim>\<open>ch.in\<close>.
\<close>

theorem send_blocks_only_on_full_staging:
  assumes "run grow evs init = Next s" and "\<not> closing s" and "\<not> in_closed (channel s)"
  shows "(length (inq (channel s)) < 16 \<longrightarrow> (\<exists>s'. step grow (Send x) s = Next s')) \<and>
         (\<exists>ds s1 s'. length ds \<le> 2 \<and> list_all (\<lambda>e. e = Disp Internal \<or> e = Disp TakeIn) ds \<and>
            run grow ds s = Next s1 \<and> step grow (Send x) s1 = Next s')"
proof -
  have inv: "cinv s" using assms(1) by (rule reach_cinv)
  then have len: "length (inq (channel s)) \<le> chan_cap" by (simp add: cinv_def Let_def)
  have 1: "\<exists>s'. step grow (Send x) s = Next s'" if "length (inq (channel s)) < 16"
    using that assms(3) by (simp add: send_in_def chan_cap_def)
  have 2: "\<exists>ds s1 s'. length ds \<le> 2 \<and> list_all (\<lambda>e. e = Disp Internal \<or> e = Disp TakeIn) ds \<and>
            run grow ds s = Next s1 \<and> step grow (Send x) s1 = Next s'"
  proof (cases "length (inq (channel s)) < 16")
    case True
    from 1[OF True] obtain s' where "step grow (Send x) s = Next s'" by blast
    then show ?thesis by (intro exI[of _ "[]"] exI[of _ s] exI[of _ s']) simp
  next
    case False
    then obtain e es where i: "inq (channel s) = e # es" by (cases "inq (channel s)") auto
    from assms(2) consider (a) "pc (channel s) = Outer \<or> (pc (channel s) = Inner \<and> qbuf (channel s) \<noteq> [])"
      | (b) "pc (channel s) = Start \<or> (pc (channel s) = Inner \<and> qbuf (channel s) = [])"
      by (cases "pc (channel s)") (auto simp: closing_def)
    then show ?thesis
    proof cases
      case a
      from take_then_send[OF a i len assms(3), of grow x] obtain s1 s' where
        "step grow (Disp TakeIn) s = Next s1" "step grow (Send x) s1 = Next s'" by blast
      then show ?thesis by (intro exI[of _ "[Disp TakeIn]"] exI[of _ s1] exI[of _ s']) simp
    next
      case b
      obtain s0 where s0: "step grow (Disp Internal) s = Next s0" "pc (channel s0) = Outer"
        "inq (channel s0) = inq (channel s)" "in_closed (channel s0) = in_closed (channel s)"
        using b by (auto simp: dispatcher_def processing_def)
      from take_then_send[of s0 e es grow x] s0 i len assms(3) obtain s1 s' where
        "step grow (Disp TakeIn) s0 = Next s1" "step grow (Send x) s1 = Next s'" by auto
      with s0(1) show ?thesis
        by (intro exI[of _ "[Disp Internal, Disp TakeIn]"] exI[of _ s1] exI[of _ s']) simp
    qed
  qed
  from 1 2 show ?thesis by blast
qed

theorem send_blocks_only_on_full_staging_witness:
  "run double (Disp Internal # replicate 16 (Send 0)) init =
     Next (\<lparr>channel = \<lparr>inq = replicate 16 0, in_closed = False, outq = [], out_closed = False,
              close_closed = False, qbuf = [], qcap = 1024, pc = Outer\<rparr>,
           accepted = replicate 16 0, received = [], eos = False\<rparr> :: nat sys) \<and>
   (\<exists>ds s1 s'. length ds \<le> 2 \<and> list_all (\<lambda>e. e = Disp Internal \<or> e = Disp TakeIn) ds \<and>
      run double ds
        (\<lparr>channel = \<lparr>inq = replicate 16 0, in_closed = False, outq = [], out_closed = False,
              close_closed = False, qbuf = [], qcap = 1024, pc = Outer\<rparr>,
         accepted = replicate 16 0, received = [], eos = False\<rparr> :: nat sys) = Next s1 \<and>
      step double (Send 0) s1 = Next s')"
proof -
  let ?s = "\<lparr>channel = \<lparr>inq = replicate 16 0, in_closed = False, outq = [], out_closed = False,
              close_closed = False, qbuf = [], qcap = 1024, pc = Outer\<rparr>,
           accepted = replicate 16 0, received = [], eos = False\<rparr> :: nat sys"
  have h: "run double (Disp Internal # replicate 16 (Send (0::nat))) init = Next ?s" by code_simp
  have c: "\<not> closing ?s" by (simp add: closing_def)
  have i: "\<not> in_closed (channel ?s)" by simp
  from send_blocks_only_on_full_staging [OF h c i, of 0]
  have r: "\<exists>ds s1 s'. length ds \<le> 2 \<and> list_all (\<lambda>e. e = Disp Internal \<or> e = Disp TakeIn) ds \<and>
      run double ds ?s = Next s1 \<and> step double (Send 0) s1 = Next s'" by (rule conjunct2)
  show ?thesis by (intro conjI h r)
qed

text \<open>
  Claim C10. The dispatcher starts with an empty buffer of capacity 1024. Each time the
  buffer has drained, a capacity below 32 is replaced by a new buffer of capacity 1024 and any
  other capacity is kept; so at the outer select the buffer is empty with capacity at least 32.
\<close>

theorem buffer_capacity_policy:
  assumes "run grow evs init = Next s"
  shows "(pc c = Start \<longrightarrow>
            processing grow Internal c = Next (c\<lparr>qbuf := [], qcap := 1024, pc := Outer\<rparr>)) \<and>
         (pc c = Inner \<and> qbuf c = [] \<longrightarrow>
            processing grow Internal c =
              Next (if qcap c < 32 then c\<lparr>qbuf := [], qcap := 1024, pc := Outer\<rparr>
                    else c\<lparr>pc := Outer\<rparr>)) \<and>
         (pc (channel s) = Outer \<longrightarrow> qbuf (channel s) = [] \<and> 32 \<le> qcap (channel s))"
proof -
  have inv: "cinv s" using assms by (rule reach_cinv)
  from cinvD(2)[OF inv] show ?thesis by (simp add: processing_def)
qed

theorem buffer_capacity_policy_witness:
  "run double [Disp Internal, Send 1, Disp TakeIn, Disp PutOut, Disp Internal] init =
     Next (\<lparr>channel = \<lparr>inq = [], in_closed = False, outq = [1], out_closed = False,
              close_closed = False, qbuf = [], qcap = 1023, pc = Outer\<rparr>,
           accepted = [1], received = [], eos = False\<rparr> :: nat sys) \<and>
   processing double Internal
     (\<lparr>inq = [], in_closed = False, outq = [], out_closed = False, close_closed = False,
      qbuf = [], qcap = 31, pc = Inner\<rparr> :: nat chan) =
     Next \<lparr>inq = [], in_closed = False, outq = [], out_closed = False,
           close_closed = False, qbuf = [], qcap = 1024, pc = Outer\<rparr> \<and>
   processing double Internal (NewUnboundedChan :: nat chan) =
     Next \<lparr>inq = [], in_closed = False, outq = [], out_closed = False,
           close_closed = False, qbuf = [], qcap = 1024, pc = Outer\<rparr>"
proof -
  let ?evs = "[Disp Internal, Send (1::nat), Disp TakeIn, Disp PutOut, Disp Internal]"
  let ?s = "\<lparr>channel = \<lparr>inq = [], in_closed = False, outq = [1], out_closed = False,
              close_closed = False, qbuf = [], qcap = 1023, pc = Outer\<rparr>,
           accepted = [1], received = [], eos = False\<rparr> :: nat sys"
  let ?c = "\<lparr>inq = [], in_closed = False, outq = [], out_closed = False, close_closed = False,
      qbuf = [], qcap = 31, pc = Inner\<rparr> :: nat chan"
  let ?c' = "\<lparr>inq = [], in_closed = False, outq = [], out_closed = False,
           close_closed = False, qbuf = [], qcap = 1024, pc = Outer\<rparr> :: nat chan"
  have h: "run double ?evs init = Next ?s" by code_simp
  have r1: "processing double Internal ?c = Next ?c'"
    using buffer_capacity_policy [OF h, where c = "?c"] by simp
  have r2: "processing double Internal (NewUnboundedChan :: nat chan) = Next ?c'"
    using buffer_capacity_policy [OF h, where c = "NewUnboundedChan :: nat chan"]
    by (simp add: NewUnboundedChan_def)
  show ?thesis by (intro conjI h r1 r2)
qed

end
